theory Spec2Isabelle
  imports Complex_Main "HOL-Library.Char_ord" "HOL-Library.List_Lexorder" "HOL-Library.AList"
    "HOL-Library.Multiset"
begin

section \<open>Python values used by compendium.py\<close>

subsection \<open>Floats\<close>

text \<open>
  A Python float is an IEEE binary64 value. A finite float is identified with the real
  number it denotes; the two infinities and NaN are separate values. Signed zeros are not
  distinguished: no function of the program observes the sign of a zero.
\<close>

datatype pyfloat = Fin real | PInf | NInf | NaN

datatype pyerror =
  ValueError | TypeError | OverflowError | KeyError | ZeroDivisionError
  | OSError | FileNotFoundError | JSONDecodeError | RecursionError

text \<open>Rounding to the nearest integer, ties to the even one (Python's \<open>round\<close>).\<close>

definition round_half_even :: "real \<Rightarrow> int" where
  "round_half_even x =
     (let f = \<lfloor>x\<rfloor> in
      if x - of_int f < 1 / 2 then f
      else if 1 / 2 < x - of_int f then f + 1
      else if even f then f else f + 1)"

text \<open>
  Rounding a real to binary64, to nearest with ties to even: the exponent of the last
  mantissa bit is \<open>double_exp x\<close> (53 bits of precision, subnormals below \<open>2\<^sup>-\<^sup>1\<^sup>0\<^sup>2\<^sup>2\<close>);
  a result of magnitude \<open>2\<^sup>1\<^sup>0\<^sup>2\<^sup>4\<close> or more overflows to an infinity.
\<close>

definition double_exp :: "real \<Rightarrow> int" where
  "double_exp x = max (\<lfloor>log 2 \<bar>x\<bar>\<rfloor> - 52) (- 1074)"

definition round_double :: "real \<Rightarrow> pyfloat" where
  "round_double x =
     (if x = 0 then Fin 0
      else
        let e = double_exp x;
            y = of_int (round_half_even (x / 2 powr of_int e)) * 2 powr of_int e
        in if 2 ^ 1024 \<le> \<bar>y\<bar> then (if 0 < x then PInf else NInf) else Fin y)"

text \<open>IEEE comparisons: every comparison with NaN is false.\<close>

fun flt :: "pyfloat \<Rightarrow> pyfloat \<Rightarrow> bool" where
  "flt NaN _ = False"
| "flt _ NaN = False"
| "flt (Fin a) (Fin b) = (a < b)"
| "flt NInf NInf = False"
| "flt NInf _ = True"
| "flt _ NInf = False"
| "flt PInf _ = False"
| "flt _ PInf = True"

definition fgt :: "pyfloat \<Rightarrow> pyfloat \<Rightarrow> bool" where
  "fgt a b = flt b a"

fun fle :: "pyfloat \<Rightarrow> pyfloat \<Rightarrow> bool" where
  "fle NaN _ = False"
| "fle _ NaN = False"
| "fle a b = (\<not> flt b a)"

definition fge :: "pyfloat \<Rightarrow> pyfloat \<Rightarrow> bool" where
  "fge a b = fle b a"

text \<open>Float multiplication and division (Python raises on a zero divisor).\<close>

fun fmul :: "pyfloat \<Rightarrow> pyfloat \<Rightarrow> pyfloat" where
  "fmul NaN _ = NaN"
| "fmul _ NaN = NaN"
| "fmul (Fin a) (Fin b) = round_double (a * b)"
| "fmul (Fin a) PInf = (if a = 0 then NaN else if 0 < a then PInf else NInf)"
| "fmul (Fin a) NInf = (if a = 0 then NaN else if 0 < a then NInf else PInf)"
| "fmul PInf (Fin b) = (if b = 0 then NaN else if 0 < b then PInf else NInf)"
| "fmul NInf (Fin b) = (if b = 0 then NaN else if 0 < b then NInf else PInf)"
| "fmul PInf PInf = PInf"
| "fmul PInf NInf = NInf"
| "fmul NInf PInf = NInf"
| "fmul NInf NInf = PInf"

fun fdiv :: "pyfloat \<Rightarrow> pyfloat \<Rightarrow> pyerror + pyfloat" where
  "fdiv a (Fin b) =
     (if b = 0 then Inl ZeroDivisionError
      else case a of
        Fin x \<Rightarrow> Inr (round_double (x / b))
      | PInf \<Rightarrow> Inr (if 0 < b then PInf else NInf)
      | NInf \<Rightarrow> Inr (if 0 < b then NInf else PInf)
      | NaN \<Rightarrow> Inr NaN)"
| "fdiv NaN _ = Inr NaN"
| "fdiv _ NaN = Inr NaN"
| "fdiv (Fin x) _ = Inr (Fin 0)"
| "fdiv _ _ = Inr NaN"

text \<open>\<open>round(n)\<close> on a float: an integer, or an exception for NaN and the infinities.\<close>

fun py_round :: "pyfloat \<Rightarrow> pyerror + int" where
  "py_round (Fin x) = Inr (round_half_even x)"
| "py_round NaN = Inl ValueError"
| "py_round _ = Inl OverflowError"

subsection \<open>Decimal rendering\<close>

definition digit_char :: "nat \<Rightarrow> char" where
  "digit_char d = ''0123456789'' ! (d mod 10)"

fun str_nat :: "nat \<Rightarrow> string" where
  "str_nat n = (if n < 10 then [digit_char n] else str_nat (n div 10) @ [digit_char (n mod 10)])"

declare str_nat.simps [simp del]

definition str_int :: "int \<Rightarrow> string" where
  "str_int i = (if i < 0 then CHR ''-'' # str_nat (nat (- i)) else str_nat (nat i))"

text \<open>
  The format \<open>f"{n:.2f}"\<close>: the exact value rounded to hundredths, ties to even, with the
  sign of the value kept even when the digits are all zero.
\<close>

fun fmt_2f :: "pyfloat \<Rightarrow> string" where
  "fmt_2f (Fin x) =
     (let h = nat (round_half_even (\<bar>x\<bar> * 100)) in
      (if x < 0 then ''-'' else '''') @ str_nat (h div 100) @ ''.''
        @ [digit_char (h div 10), digit_char h])"
| "fmt_2f PInf = ''inf''"
| "fmt_2f NInf = ''-inf''"
| "fmt_2f NaN = ''nan''"

section \<open>Display of an amount\<close>

text \<open>The literal \<open>1e-9\<close> is the binary64 value nearest to \<open>10\<^sup>-\<^sup>9\<close>.\<close>

definition lit_1e_9 :: real where
  "lit_1e_9 = 4835703278458517 / 2 ^ 82"

text \<open>
  \<open>pretty(n, as_int_if_clean=True)\<close>. The difference \<open>n - round(n)\<close> of a finite float
  and its nearest integer is representable, so the float subtraction is exact.
\<close>

definition pretty :: "pyfloat \<Rightarrow> bool \<Rightarrow> pyerror + string" where
  "pretty n as_int_if_clean =
     (if as_int_if_clean then
        (case py_round n of
           Inl e \<Rightarrow> Inl e
         | Inr r \<Rightarrow>
             (case n of
                Fin x \<Rightarrow>
                  if \<bar>x - of_int r\<bar> < lit_1e_9 then Inr (str_int r) else Inr (fmt_2f n)
              | _ \<Rightarrow> Inr (fmt_2f n)))
      else Inr (fmt_2f n))"

section \<open>Strings, paths and the folder\<close>

subsection \<open>Strings\<close>

text \<open>
  Strings are lists of characters. \<open>str.lower\<close> and \<open>str.strip\<close> are modelled on the ASCII
  range: the letters \<open>A\<close> to \<open>Z\<close> are lowered, and the whitespace characters are the space,
  the control characters 9 to 13 and the separators 28 to 31.
\<close>

definition lower_char :: "char \<Rightarrow> char" where
  "lower_char c =
     (case map_of (zip ''ABCDEFGHIJKLMNOPQRSTUVWXYZ'' ''abcdefghijklmnopqrstuvwxyz'') c of
        Some d \<Rightarrow> d
      | None \<Rightarrow> c)"

definition lower :: "string \<Rightarrow> string" where
  "lower s = map lower_char s"

definition isspace :: "char \<Rightarrow> bool" where
  "isspace c =
     (let n = (of_char c :: nat) in n = 32 \<or> (9 \<le> n \<and> n \<le> 13) \<or> (28 \<le> n \<and> n \<le> 31))"

definition strip :: "string \<Rightarrow> string" where
  "strip s = rev (dropWhile isspace (rev (dropWhile isspace s)))"

definition endswith :: "string \<Rightarrow> string \<Rightarrow> bool" where
  "endswith s suf = (length suf \<le> length s \<and> drop (length s - length suf) s = suf)"

text \<open>\<open>q in s\<close> for strings: \<open>q\<close> occurs in \<open>s\<close> as a contiguous block.\<close>

fun str_in :: "string \<Rightarrow> string \<Rightarrow> bool" where
  "str_in q [] = (q = [])"
| "str_in q (x # xs) = (take (length q) (x # xs) = q \<or> str_in q xs)"

text \<open>\<open>s.rfind(c)\<close>: the index of the last occurrence of \<open>c\<close>, or \<open>-1\<close>.\<close>

definition rfind :: "string \<Rightarrow> char \<Rightarrow> int" where
  "rfind s c =
     (if c \<in> set s then int (length s) - 1 - int (length (takeWhile (\<lambda>x. x \<noteq> c) (rev s)))
      else - 1)"

text \<open>The slice \<open>s[i:j]\<close> for \<open>0 \<le> i\<close>, \<open>0 \<le> j\<close>.\<close>

definition slice :: "string \<Rightarrow> int \<Rightarrow> int \<Rightarrow> string" where
  "slice s i j = take (nat (j - i)) (drop (nat i) s)"

subsection \<open>Paths (posixpath)\<close>

definition basename :: "string \<Rightarrow> string" where
  "basename p = drop (nat (rfind p CHR ''/'' + 1)) p"

text \<open>
  \<open>os.path.splitext\<close>: the extension starts at the last dot of the last path component,
  unless only dots precede it in that component.
\<close>

definition splitext :: "string \<Rightarrow> string \<times> string" where
  "splitext p =
     (let sepIndex = rfind p CHR ''/'';
          dotIndex = rfind p CHR ''.''
      in if sepIndex < dotIndex \<and> list_ex (\<lambda>x. x \<noteq> CHR ''.'') (slice p (sepIndex + 1) dotIndex)
         then (take (nat dotIndex) p, drop (nat dotIndex) p)
         else (p, []))"

subsection \<open>The folder of JSON files\<close>

text \<open>
  A directory is the list of its entries, each a name with what is stored under it: a
  subdirectory, a regular file that cannot be opened, or a regular file with its content.
  Names are plain file names, and a name occurs at most once.
\<close>

datatype node = Directory | Unreadable | Readable string

type_synonym folder = "(string \<times> node) list"


fun isfile :: "node option \<Rightarrow> bool" where
  "isfile None = False"
| "isfile (Some Directory) = False"
| "isfile (Some _) = True"




text \<open>Reading a decimal rendering back, to show that rendering is injective.\<close>

definition digit_val :: "char \<Rightarrow> nat" where
  "digit_val c = length (takeWhile (\<lambda>d. d \<noteq> c) ''0123456789'')"

definition nat_of_str :: "string \<Rightarrow> nat" where
  "nat_of_str s = foldl (\<lambda>a c. 10 * a + digit_val c) 0 s"

subsection \<open>Reading a float from a string\<close>

text \<open>
  \<open>float(s)\<close> for a string: surrounding whitespace is ignored (for \<open>float\<close> that is the
  space and the control characters 9 to 13 only); an optional sign is followed
  by \<open>inf\<close>, \<open>infinity\<close> or \<open>nan\<close> in any letter case, or by a decimal number with an optional
  exponent. Digits may be grouped by single underscores. Anything else is a \<open>ValueError\<close>.
  The decimal value is rounded to binary64.
\<close>

definition is_digit :: "char \<Rightarrow> bool" where
  "is_digit c = (c \<in> set ''0123456789'')"

definition digitpart_ok :: "string \<Rightarrow> bool" where
  "digitpart_ok s =
     (s \<noteq> [] \<and> is_digit (hd s) \<and> is_digit (last s)
      \<and> list_all (\<lambda>c. is_digit c \<or> c = CHR ''_'') s \<and> \<not> str_in ''__'' s)"

definition digitpart_val :: "string \<Rightarrow> nat" where
  "digitpart_val s = nat_of_str (filter is_digit s)"

definition parse_number :: "string \<Rightarrow> real option" where
  "parse_number body =
     (let ip = takeWhile (\<lambda>c. c \<noteq> CHR ''.'') body;
          rest = dropWhile (\<lambda>c. c \<noteq> CHR ''.'') body
      in if rest = [] \<or> tl rest = [] then
           (if digitpart_ok ip then Some (real (digitpart_val ip)) else None)
         else if digitpart_ok (tl rest) \<and> (ip = [] \<or> digitpart_ok ip) then
           Some (real (digitpart_val ip)
                 + real (digitpart_val (tl rest)) / 10 ^ length (filter is_digit (tl rest)))
         else None)"

definition parse_exponent :: "string \<Rightarrow> int option" where
  "parse_exponent e =
     (case e of
        c # ds \<Rightarrow>
          if c = CHR ''-'' then (if digitpart_ok ds then Some (- int (digitpart_val ds)) else None)
          else if c = CHR ''+'' then (if digitpart_ok ds then Some (int (digitpart_val ds)) else None)
          else (if digitpart_ok e then Some (int (digitpart_val e)) else None)
      | [] \<Rightarrow> None)"

definition scale10 :: "real \<Rightarrow> int \<Rightarrow> real" where
  "scale10 a k = (if 0 \<le> k then a * 10 ^ nat k else a / 10 ^ nat (- k))"

definition float_space :: "char \<Rightarrow> bool" where
  "float_space c = (let n = (of_char c :: nat) in n = 32 \<or> (9 \<le> n \<and> n \<le> 13))"

definition float_strip :: "string \<Rightarrow> string" where
  "float_strip s = rev (dropWhile float_space (rev (dropWhile float_space s)))"

definition float_of_str :: "string \<Rightarrow> pyerror + pyfloat" where
  "float_of_str s =
     (let t = float_strip s;
          neg = (t \<noteq> [] \<and> hd t = CHR ''-'');
          u = (if t \<noteq> [] \<and> (hd t = CHR ''-'' \<or> hd t = CHR ''+'') then tl t else t)
      in if lower u = ''inf'' \<or> lower u = ''infinity'' then Inr (if neg then NInf else PInf)
         else if lower u = ''nan'' then Inr NaN
         else
           let m = takeWhile (\<lambda>c. c \<noteq> CHR ''e'' \<and> c \<noteq> CHR ''E'') u;
               r = dropWhile (\<lambda>c. c \<noteq> CHR ''e'' \<and> c \<noteq> CHR ''E'') u
           in case (parse_number m, if r = [] then Some 0 else parse_exponent (tl r)) of
                (Some a, Some k) \<Rightarrow> Inr (round_double (scale10 (if neg then - a else a) k))
              | _ \<Rightarrow> Inl ValueError)"

section \<open>Currency conversion\<close>

text \<open>The literals \<open>0.1\<close> and \<open>0.01\<close> denote the binary64 values nearest to them.\<close>

definition UNIT_TO_GP :: "(string \<times> pyfloat) list" where
  "UNIT_TO_GP =
     [(''pp'', Fin 10), (''gp'', Fin 1), (''ep'', Fin (1 / 2)),
      (''sp'', round_double (1 / 10)), (''cp'', round_double (1 / 100))]"

definition UNITS :: "string list" where
  "UNITS = [''pp'', ''gp'', ''ep'', ''sp'', ''cp'']"

text \<open>\<open>UNIT_TO_GP[unit]\<close>: a \<open>KeyError\<close> for a unit that is not in the table.\<close>

definition unit_rate :: "string \<Rightarrow> pyerror + pyfloat" where
  "unit_rate unit = (case map_of UNIT_TO_GP unit of None \<Rightarrow> Inl KeyError | Some r \<Rightarrow> Inr r)"

definition bind_err :: "'e + 'a \<Rightarrow> ('a \<Rightarrow> 'e + 'b) \<Rightarrow> 'e + 'b" where
  "bind_err m f = (case m of Inl e \<Rightarrow> Inl e | Inr x \<Rightarrow> f x)"

definition to_gp :: "pyfloat \<Rightarrow> string \<Rightarrow> pyerror + pyfloat" where
  "to_gp amount unit = bind_err (unit_rate unit) (\<lambda>r. Inr (fmul amount r))"

text \<open>\<open>from_gp\<close> returns the dictionary of the five amounts, in the order of its keys.\<close>

definition from_gp :: "pyfloat \<Rightarrow> pyerror + (string \<times> pyfloat) list" where
  "from_gp gp_value =
     bind_err (bind_err (unit_rate ''pp'') (fdiv gp_value)) (\<lambda>pp.
     bind_err (bind_err (unit_rate ''ep'') (fdiv gp_value)) (\<lambda>ep.
     bind_err (bind_err (unit_rate ''sp'') (fdiv gp_value)) (\<lambda>sp.
     bind_err (bind_err (unit_rate ''cp'') (fdiv gp_value)) (\<lambda>cp.
       Inr [(''pp'', pp), (''gp'', gp_value), (''ep'', ep), (''sp'', sp), (''cp'', cp)]))))"

section \<open>Loading a price file\<close>

text \<open>
  The value \<open>json.load\<close> returns: \<open>None\<close>, a bool, an int, a float, a string, a list, or a
  dictionary in the order of the file. Keys are optional so that the loader's test
  \<open>k is None\<close> is a branch of the model; the parser itself only produces string keys.
  The loader takes the parser as the parameter \<open>json_loads\<close>, which returns the value or
  the exception the parser raises.
\<close>

datatype json =
  JNull | JBool bool | JInt int | JFloat pyfloat | JStr string
  | JList "json list" | JDict "(string option \<times> json) list"

text \<open>
  \<open>float(v)\<close>: an integer too large for binary64 raises \<open>OverflowError\<close>; \<open>None\<close>, lists and
  dictionaries raise \<open>TypeError\<close>; a string is read as above.
\<close>

fun py_float :: "json \<Rightarrow> pyerror + pyfloat" where
  "py_float JNull = Inl TypeError"
| "py_float (JBool b) = Inr (Fin (if b then 1 else 0))"
| "py_float (JInt i) =
     (case round_double (of_int i) of Fin y \<Rightarrow> Inr (Fin y) | _ \<Rightarrow> Inl OverflowError)"
| "py_float (JFloat x) = Inr x"
| "py_float (JStr s) = float_of_str s"
| "py_float (JList _) = Inl TypeError"
| "py_float (JDict _) = Inl TypeError"

text \<open>
  A catalog is a dictionary from names to prices, kept in insertion order: assigning to a
  key that is present replaces its value in place, a new key goes to the end.
\<close>

type_synonym catalog = "(string \<times> pyfloat) list"

text \<open>
  The loop over \<open>data.items()\<close>. \<open>TypeError\<close> and \<open>ValueError\<close> of the coercion are caught and
  the entry is skipped; any other exception leaves the loop and the function.
\<close>

fun clean_loop :: "(string option \<times> json) list \<Rightarrow> catalog \<Rightarrow> pyerror + catalog" where
  "clean_loop [] cleaned = Inr cleaned"
| "clean_loop ((k, v) # rest) cleaned =
     (case k of
        None \<Rightarrow> clean_loop rest cleaned
      | Some key \<Rightarrow>
          let name = strip key in
          (case py_float v of
             Inl TypeError \<Rightarrow> clean_loop rest cleaned
           | Inl ValueError \<Rightarrow> clean_loop rest cleaned
           | Inl e \<Rightarrow> Inl e
           | Inr price \<Rightarrow> clean_loop rest (AList.update name price cleaned)))"

definition clean_prices :: "json \<Rightarrow> pyerror + catalog" where
  "clean_prices data = (case data of JDict kvs \<Rightarrow> clean_loop kvs [] | _ \<Rightarrow> Inr [])"

text \<open>\<open>load_prices_json\<close>, given what is stored under the path.\<close>

definition load_prices_json ::
  "(string \<Rightarrow> pyerror + json) \<Rightarrow> node option \<Rightarrow> pyerror + catalog" where
  "load_prices_json json_loads file =
     (case file of
        None \<Rightarrow> Inl FileNotFoundError
      | Some Directory \<Rightarrow> Inl OSError
      | Some Unreadable \<Rightarrow> Inl OSError
      | Some (Readable content) \<Rightarrow>
          (case json_loads content of
             Inl e \<Rightarrow> Inl e
           | Inr data \<Rightarrow> clean_prices data))"

section \<open>The application state\<close>

text \<open>
  The fields of \<open>App\<close> that the data operations read and write. \<open>tree\<close> is the list of the
  displayed rows, each the six cell strings name, pp, gp, ep, sp, cp.
\<close>

record app =
  file_index :: "(string \<times> string) list"
  file_var :: string
  selected_display_name :: string
  items :: catalog
  filtered_items :: "(string \<times> pyfloat) list"
  tree :: "string list list"
  name_var :: string
  min_var :: string
  max_var :: string
  unit_var :: string

text \<open>
  The outcome of a user action: it completed, it showed a warning box and returned, or an
  exception left it. Each carries the state the action left behind.
\<close>

datatype outcome = Updated app | Warned string app | Raised pyerror app

fun state_of :: "outcome \<Rightarrow> app" where
  "state_of (Updated st) = st"
| "state_of (Warned _ st) = st"
| "state_of (Raised _ st) = st"

subsection \<open>The list of source files\<close>

definition list_json_files :: "folder \<Rightarrow> string list" where
  "list_json_files folder =
     sort (map fst (filter (\<lambda>(fn, n). endswith (lower fn) ''.json'' \<and> isfile (Some n)) folder))"

text \<open>\<open>_refresh_file_list\<close>: the index maps a display name (the file name without its extension) to the file.\<close>

definition build_index :: "string list \<Rightarrow> (string \<times> string) list" where
  "build_index paths =
     foldl (\<lambda>idx p. AList.update (fst (splitext (basename p))) p idx) [] paths"

definition refresh_file_list :: "folder \<Rightarrow> string option \<Rightarrow> app \<Rightarrow> app" where
  "refresh_file_list folder select_display st =
     (let paths = list_json_files folder;
          index = build_index paths;
          vals = ''All files'' # sort_key lower (map fst index);
          fv = (case select_display of
                  Some d \<Rightarrow> if d \<noteq> [] \<and> d \<in> set vals then d
                            else if file_var st \<notin> set vals then ''All files'' else file_var st
                | None \<Rightarrow> if file_var st \<notin> set vals then ''All files'' else file_var st)
      in st\<lparr>file_index := index, file_var := fv, selected_display_name := fv\<rparr>)"

text \<open>\<open>merged.update(data)\<close>.\<close>

definition dict_update :: "catalog \<Rightarrow> catalog \<Rightarrow> catalog" where
  "dict_update merged data = foldl (\<lambda>m (k, v). AList.update k v m) merged data"

text \<open>\<open>_load_items_for_selection\<close>: every exception of a load is caught.\<close>

definition load_items_for_selection ::
  "(string \<Rightarrow> pyerror + json) \<Rightarrow> folder \<Rightarrow> app \<Rightarrow> app" where
  "load_items_for_selection json_loads folder st =
     (let sel = file_var st;
          merged =
            (if sel = ''All files'' then
               foldl (\<lambda>merged (_, path).
                        case load_prices_json json_loads (map_of folder path) of
                          Inr data \<Rightarrow> dict_update merged data
                        | Inl _ \<Rightarrow> merged)
                     [] (file_index st)
             else
               (case map_of (file_index st) sel of
                  Some path \<Rightarrow>
                    if path \<noteq> [] then
                      (case load_prices_json json_loads (map_of folder path) of
                         Inr data \<Rightarrow> data
                       | Inl _ \<Rightarrow> [])
                    else []
                | None \<Rightarrow> []))
      in st\<lparr>items := merged\<rparr>)"

text \<open>
  The merge as the specification words it: the left fold of \<open>load\<close> over every source file of
  the folder in sorted order, a later source overwriting an earlier one, a failed load
  skipped.
\<close>

definition merge_all_sources :: "(string \<Rightarrow> pyerror + json) \<Rightarrow> folder \<Rightarrow> catalog" where
  "merge_all_sources json_loads folder =
     foldl (\<lambda>merged path.
              case load_prices_json json_loads (map_of folder path) of
                Inr data \<Rightarrow> dict_update merged data
              | Inl _ \<Rightarrow> merged)
           [] (list_json_files folder)"

subsection \<open>Filtering\<close>

text \<open>
  \<open>_refresh_table\<close>: the rows are inserted one by one; an exception of \<open>pretty\<close> stops the
  insertion and leaves the rows inserted so far.
\<close>

definition lookup_err :: "(string \<times> 'a) list \<Rightarrow> string \<Rightarrow> pyerror + 'a" where
  "lookup_err d k = (case map_of d k of None \<Rightarrow> Inl KeyError | Some v \<Rightarrow> Inr v)"

definition table_row :: "string \<times> pyfloat \<Rightarrow> pyerror + string list" where
  "table_row item =
     (case item of (name, gp_value) \<Rightarrow>
        bind_err (from_gp gp_value) (\<lambda>conv.
        bind_err (bind_err (lookup_err conv ''pp'') (\<lambda>x. pretty x True)) (\<lambda>pp.
        bind_err (bind_err (lookup_err conv ''gp'') (\<lambda>x. pretty x True)) (\<lambda>gp.
        bind_err (bind_err (lookup_err conv ''ep'') (\<lambda>x. pretty x True)) (\<lambda>ep.
        bind_err (bind_err (lookup_err conv ''sp'') (\<lambda>x. pretty x True)) (\<lambda>sp.
        bind_err (bind_err (lookup_err conv ''cp'') (\<lambda>x. pretty x True)) (\<lambda>cp.
          Inr [name, pp, gp, ep, sp, cp])))))))"

fun insert_rows :: "(string \<times> pyfloat) list \<Rightarrow> string list list \<Rightarrow> string list list \<times> pyerror option" where
  "insert_rows [] rows = (rows, None)"
| "insert_rows (item # rest) rows =
     (case table_row item of
        Inl e \<Rightarrow> (rows, Some e)
      | Inr row \<Rightarrow> insert_rows rest (rows @ [row]))"

definition refresh_table :: "(string \<times> pyfloat) list \<Rightarrow> app \<Rightarrow> outcome" where
  "refresh_table its st =
     (case insert_rows its [] of
        (rows, None) \<Rightarrow> Updated (st\<lparr>tree := rows\<rparr>)
      | (rows, Some e) \<Rightarrow> Raised e (st\<lparr>tree := rows\<rparr>))"

text \<open>The range of \<open>_apply_filters\<close>: the two optional bounds in gp.\<close>

definition parse_bound :: "string \<Rightarrow> string \<Rightarrow> pyerror + pyfloat option" where
  "parse_bound s unit =
     (if s \<noteq> [] then
        bind_err (float_of_str s) (\<lambda>x. bind_err (to_gp x unit) (\<lambda>g. Inr (Some g)))
      else Inr None)"

definition parse_range ::
  "string \<Rightarrow> string \<Rightarrow> string \<Rightarrow> pyerror + pyfloat option \<times> pyfloat option" where
  "parse_range min_s max_s unit =
     bind_err (parse_bound min_s unit) (\<lambda>min_gp.
     bind_err (parse_bound max_s unit) (\<lambda>max_gp. Inr (min_gp, max_gp)))"

text \<open>The body of the loop over the items: \<open>False\<close> where the loop continues without appending.\<close>

definition keeps :: "string \<Rightarrow> pyfloat option \<Rightarrow> pyfloat option \<Rightarrow> string \<times> pyfloat \<Rightarrow> bool" where
  "keeps name_query min_gp max_gp item =
     (case item of (name, price_gp) \<Rightarrow>
        if name_query \<noteq> [] \<and> \<not> str_in name_query (lower name) then False
        else if (case min_gp of Some m \<Rightarrow> flt price_gp m | None \<Rightarrow> False) then False
        else if (case max_gp of Some m \<Rightarrow> fgt price_gp m | None \<Rightarrow> False) then False
        else True)"

definition apply_filters :: "app \<Rightarrow> outcome" where
  "apply_filters st =
     (let name_query = lower (strip (name_var st));
          min_s = strip (min_var st);
          max_s = strip (max_var st);
          unit = unit_var st
      in case parse_range min_s max_s unit of
           Inl ValueError \<Rightarrow> Warned ''Invalid Range'' st
         | Inl e \<Rightarrow> Raised e st
         | Inr (min_gp, max_gp) \<Rightarrow>
             let results = filter (keeps name_query min_gp max_gp) (items st)
             in refresh_table results (st\<lparr>filtered_items := results\<rparr>))"

subsection \<open>Sorting\<close>

text \<open>
  \<open>list.sort\<close> compares with \<open><\<close> only and is stable; with \<open>reverse=True\<close> the list is
  reversed, sorted, and reversed again. Where \<open><\<close> is a strict weak order on the keys the
  result is that of the insertion sort below.
\<close>

fun insort_lt :: "('k \<Rightarrow> 'k \<Rightarrow> bool) \<Rightarrow> ('a \<Rightarrow> 'k) \<Rightarrow> 'a \<Rightarrow> 'a list \<Rightarrow> 'a list" where
  "insort_lt lt key x [] = [x]"
| "insort_lt lt key x (y # ys) =
     (if lt (key x) (key y) then x # y # ys else y # insort_lt lt key x ys)"

definition list_sort :: "('k \<Rightarrow> 'k \<Rightarrow> bool) \<Rightarrow> ('a \<Rightarrow> 'k) \<Rightarrow> bool \<Rightarrow> 'a list \<Rightarrow> 'a list" where
  "list_sort lt key reverse xs =
     (if reverse then rev (foldl (\<lambda>acc x. insort_lt lt key x acc) [] (rev xs))
      else foldl (\<lambda>acc x. insort_lt lt key x acc) [] xs)"

definition COLUMNS :: "string list" where
  "COLUMNS = [''name'', ''pp'', ''gp'', ''ep'', ''sp'', ''cp'']"

definition numeric_cols :: "string list" where
  "numeric_cols = [''pp'', ''gp'', ''ep'', ''sp'', ''cp'']"

definition to_num :: "string \<Rightarrow> pyfloat" where
  "to_num s = (case float_of_str s of Inr x \<Rightarrow> x | Inl _ \<Rightarrow> PInf)"

text \<open>The cell of a row under a column: \<open>dict(zip(columns, vals))[col_key]\<close>.\<close>

definition cell :: "string \<Rightarrow> string list \<Rightarrow> pyerror + string" where
  "cell col_key vals = lookup_err (zip COLUMNS vals) col_key"

fun cells :: "string \<Rightarrow> string list list \<Rightarrow> pyerror + (string \<times> string list) list" where
  "cells col_key [] = Inr []"
| "cells col_key (vals # rest) =
     bind_err (cell col_key vals) (\<lambda>c.
     bind_err (cells col_key rest) (\<lambda>cs. Inr ((c, vals) # cs)))"

definition sort_by :: "string \<Rightarrow> bool \<Rightarrow> app \<Rightarrow> outcome" where
  "sort_by col_key descending st =
     (case cells col_key (tree st) of
        Inl e \<Rightarrow> Raised e st
      | Inr rows \<Rightarrow>
          let sorted_rows =
                (if col_key \<in> set numeric_cols
                 then list_sort flt (\<lambda>t. to_num (fst t)) descending rows
                 else list_sort (<) (\<lambda>t. lower (fst t)) descending rows)
          in Updated (st\<lparr>tree := map snd sorted_rows\<rparr>))"

section \<open>Notions used in the statements\<close>

text \<open>The fields as \<open>__init__\<close> sets them, before the first load.\<close>

definition init_app :: app where
  "init_app =
     \<lparr>file_index = [], file_var = ''All files'', selected_display_name = ''All files'',
      items = [], filtered_items = [], tree = [],
      name_var = '''', min_var = '''', max_var = '''', unit_var = ''gp''\<rparr>"

text \<open>
  The entries of an object that have a key and a value that reads as a float, in the order
  of the file, each under its stripped key.
\<close>

definition accepted :: "(string option \<times> json) list \<Rightarrow> catalog" where
  "accepted kvs =
     List.map_filter
       (\<lambda>(k, v). case k of
           None \<Rightarrow> None
         | Some key \<Rightarrow> (case py_float v of Inr x \<Rightarrow> Some (strip key, x) | Inl _ \<Rightarrow> None))
       kvs"

text \<open>The sort key of a displayed row under a numeric column.\<close>

definition num_key :: "string \<Rightarrow> string list \<Rightarrow> pyfloat" where
  "num_key col_key vals = (case cell col_key vals of Inr c \<Rightarrow> to_num c | Inl _ \<Rightarrow> PInf)"

text \<open>
  The round trip of the specification, \<open>to_base(from_base(p)[u], u)\<close>, composed of \<open>from_gp\<close>
  and \<open>to_gp\<close>.
\<close>

definition round_trip :: "pyfloat \<Rightarrow> string \<Rightarrow> pyerror + pyfloat" where
  "round_trip p unit =
     bind_err (from_gp p) (\<lambda>conv.
     bind_err (lookup_err conv unit) (\<lambda>x. to_gp x unit))"

section \<open>Properties of the display formatter\<close>


lemma round_half_even_near:
  fixes x :: real and k :: int
  assumes "\<bar>x - of_int k\<bar> < 1 / 2"
  shows "round_half_even x = k"
proof -
  have "\<lfloor>x\<rfloor> = k \<or> \<lfloor>x\<rfloor> = k - 1"
    using assms by linarith
  then show ?thesis
  proof
    assume f: "\<lfloor>x\<rfloor> = k"
    have "x - of_int k < 1 / 2" using assms by linarith
    then show ?thesis by (simp add: round_half_even_def Let_def f)
  next
    assume f: "\<lfloor>x\<rfloor> = k - 1"
    have a: "1 / 2 < x - (of_int k - 1)" using assms f by linarith
    then have b: "\<not> x - (of_int k - 1) < 1 / 2" by linarith
    show ?thesis using a b
      by (simp only: round_half_even_def Let_def f of_int_diff of_int_1 if_False if_True)
  qed
qed

lemma lit_1e_9_small: "lit_1e_9 < 1 / 2"
  by (simp add: lit_1e_9_def)

lemma digit_char_mod: "digit_char (n mod 10) = digit_char n"
  by (simp add: digit_char_def)

lemma round_half_even_dist: "\<bar>x - of_int (round_half_even x)\<bar> \<le> 1 / 2"
proof -
  define f where "f = \<lfloor>x\<rfloor>"
  have b: "of_int f \<le> x" "x < of_int f + 1" unfolding f_def by linarith+
  consider "x - of_int f < 1 / 2" | "1 / 2 < x - of_int f" | "x - of_int f = 1 / 2"
    by linarith
  then show ?thesis
  proof cases
    case 1
    then have "round_half_even x = f" by (simp add: round_half_even_def Let_def f_def)
    then show ?thesis using 1 b by simp
  next
    case 2
    then have "round_half_even x = f + 1" by (simp add: round_half_even_def Let_def f_def)
    then show ?thesis using 2 b by simp
  next
    case 3
    then have "round_half_even x = f \<or> round_half_even x = f + 1"
      by (simp add: round_half_even_def Let_def f_def)
    then show ?thesis using 3 b by auto
  qed
qed

lemma split3: "100 * ((n::nat) div 100) + 10 * ((n div 10) mod 10) + n mod 10 = n"
proof -
  have "(n div 10) div 10 = n div 100" by (simp add: div_mult2_eq)
  moreover have "10 * ((n div 10) div 10) + (n div 10) mod 10 = n div 10" by simp
  moreover have "10 * (n div 10) + n mod 10 = n" by simp
  ultimately show ?thesis by linarith
qed

text \<open>
  C9. \<open>pretty(n)\<close> of a finite \<open>n\<close>: when \<open>n\<close> is within \<open>1e-9\<close> of an integer \<open>k\<close> the result
  is the decimal rendering of \<open>k\<close> with no decimals; otherwise it is the sign, the integer
  digits, a point and exactly two decimal digits, of \<open>n\<close> rounded to hundredths.
\<close>

theorem pretty_clean_or_two_decimals:
  fixes x :: real
  shows "(\<forall>k::int. \<bar>x - of_int k\<bar> < lit_1e_9 \<longrightarrow> pretty (Fin x) True = Inr (str_int k))
       \<and> ((\<forall>k::int. lit_1e_9 \<le> \<bar>x - of_int k\<bar>) \<longrightarrow>
            (\<exists>h d1 d2. d1 < 10 \<and> d2 < 10
               \<and> int (100 * h + 10 * d1 + d2) = round_half_even (\<bar>x\<bar> * 100)
               \<and> pretty (Fin x) True =
                   Inr ((if x < 0 then ''-'' else '''') @ str_nat h @ ''.''
                          @ [digit_char d1, digit_char d2])))"
proof (intro conjI allI impI)
  fix k :: int
  assume near: "\<bar>x - of_int k\<bar> < lit_1e_9"
  then have "\<bar>x - of_int k\<bar> < 1 / 2"
    using lit_1e_9_small by linarith
  then have "round_half_even x = k"
    by (rule round_half_even_near)
  then show "pretty (Fin x) True = Inr (str_int k)"
    using near by (simp add: pretty_def)
next
  assume far: "\<forall>k::int. lit_1e_9 \<le> \<bar>x - of_int k\<bar>"
  define r where "r = round_half_even (\<bar>x\<bar> * 100)"
  define n where "n = nat r"
  have "0 \<le> r"
  proof -
    have "\<bar>\<bar>x\<bar> * 100 - of_int r\<bar> \<le> 1 / 2"
      unfolding r_def by (rule round_half_even_dist)
    then have "- 1 / 2 \<le> real_of_int r" by linarith
    then show ?thesis by linarith
  qed
  then have rn: "int n = r" by (simp add: n_def)
  have nl: "\<not> \<bar>x - of_int (round_half_even x)\<bar> < lit_1e_9"
    using far by (simp add: not_less)
  have p: "pretty (Fin x) True =
      Inr ((if x < 0 then ''-'' else '''') @ str_nat (n div 100) @ ''.''
             @ [digit_char ((n div 10) mod 10), digit_char (n mod 10)])"
    unfolding pretty_def py_round.simps sum.case pyfloat.case fmt_2f.simps Let_def
      digit_char_mod n_def r_def
    using nl by simp
  have s: "int (100 * (n div 100) + 10 * ((n div 10) mod 10) + n mod 10) = r"
    using rn by (simp only: split3)
  show "\<exists>h d1 d2. d1 < 10 \<and> d2 < 10
      \<and> int (100 * h + 10 * d1 + d2) = round_half_even (\<bar>x\<bar> * 100)
      \<and> pretty (Fin x) True =
          Inr ((if x < 0 then ''-'' else '''') @ str_nat h @ ''.''
                 @ [digit_char d1, digit_char d2])"
    apply (rule exI [of _ "n div 100"])
    apply (rule exI [of _ "(n div 10) mod 10"])
    apply (rule exI [of _ "n mod 10"])
    using p s unfolding r_def by simp
qed

lemma far_3256: "\<forall>k::int. lit_1e_9 \<le> \<bar>3256 / 1000 - real_of_int k\<bar>"
proof
  fix k :: int
  have l: "lit_1e_9 < 1 / 5" by (simp add: lit_1e_9_def)
  show "lit_1e_9 \<le> \<bar>3256 / 1000 - real_of_int k\<bar>"
  proof (cases "k \<le> 3")
    case True
    then have "real_of_int k \<le> 3" by simp
    then show ?thesis using l by linarith
  next
    case False
    then have "4 \<le> k" by simp
    then have "4 \<le> real_of_int k" by simp
    then show ?thesis using l by linarith
  qed
qed

theorem pretty_clean_or_two_decimals_witness:
  "\<bar>3 - real_of_int 3\<bar> < lit_1e_9 \<and> pretty (Fin 3) True = Inr ''3''
   \<and> (\<forall>k::int. lit_1e_9 \<le> \<bar>3256 / 1000 - real_of_int k\<bar>)
   \<and> pretty (Fin (3256 / 1000)) True = Inr ''3.26''"
proof -
  have a: "\<bar>3 - real_of_int 3\<bar> < lit_1e_9" by (simp add: lit_1e_9_def)
  have b: "pretty (Fin 3) True = Inr (str_int 3)"
    using pretty_clean_or_two_decimals [of 3] a by blast
  have r: "round_half_even (\<bar>3256 / 1000\<bar> * 100) = 326"
    by (simp add: round_half_even_def)
  obtain h d1 d2 :: nat where d: "d1 < 10" "d2 < 10"
    and s: "int (100 * h + 10 * d1 + d2) = 326"
    and p: "pretty (Fin (3256 / 1000)) True =
       Inr ((if (3256 / 1000 :: real) < 0 then ''-'' else '''') @ str_nat h @ ''.''
              @ [digit_char d1, digit_char d2])"
    using pretty_clean_or_two_decimals [of "3256 / 1000"] far_3256 unfolding r by blast
  have n: "100 * h + 10 * d1 + d2 = 326" using s by linarith
  have h3: "h = 3" using d n by linarith
  have d12: "d1 = 2" using d n h3 by linarith
  have d26: "d2 = 6" using n h3 d12 by linarith
  have c: "pretty (Fin (3256 / 1000)) True = Inr ''3.26''"
    using p unfolding h3 d12 d26 by (simp add: str_nat.simps digit_char_def)
  show ?thesis using a b c far_3256 by (simp add: str_int_def str_nat.simps digit_char_def)
qed

section \<open>Properties of the import\<close>






















section \<open>Properties of rounding and of reading floats\<close>

lemma floor_log2_eq:
  fixes x :: real and k :: int
  assumes "2 powr of_int k \<le> x" "x < 2 powr of_int (k + 1)"
  shows "\<lfloor>log 2 x\<rfloor> = k"
proof -
  have pos: "0 < x" using assms(1) by (smt (verit) powr_gt_zero)
  have "of_int k \<le> log 2 x" using assms(1) pos by (simp add: le_log_iff)
  moreover have "log 2 x < of_int (k + 1)" using assms(2) pos by (simp add: log_less_iff)
  ultimately show ?thesis by linarith
qed

lemma round_half_even_int: "round_half_even (of_int m) = m"
  by (simp add: round_half_even_def)

text \<open>A value whose quotient by its last-bit weight is an integer is not changed by rounding.\<close>

lemma round_double_exact:
  fixes x :: real
  assumes "x \<noteq> 0" "\<bar>x\<bar> < 2 ^ 1024" "x / 2 powr of_int (double_exp x) = of_int m"
  shows "round_double x = Fin x"
proof -
  have "of_int m * 2 powr of_int (double_exp x) = x"
    using assms(3) by (simp add: field_simps)
  then have y: "of_int (round_half_even (x / 2 powr of_int (double_exp x))) * 2 powr of_int (double_exp x) = x"
    unfolding assms(3) round_half_even_int .
  have no: "\<not> (2 ^ 1024 \<le> \<bar>x\<bar>)" using assms(2) by (simp only: not_le)
  show ?thesis
    unfolding round_double_def Let_def y using assms(1) no by (simp only: if_False)
qed

lemma double_exp_bounds:
  fixes x :: real
  assumes "1 \<le> \<bar>x\<bar>" "\<bar>x\<bar> < 2 ^ 53"
  shows "- 52 \<le> double_exp x \<and> double_exp x \<le> 0"
proof -
  have "0 \<le> log 2 \<bar>x\<bar>" using assms(1) by simp
  moreover have "log 2 \<bar>x\<bar> < 53"
  proof -
    have "\<bar>x\<bar> < 2 powr 53" using assms(2) by (simp add: powr_numeral)
    then show ?thesis using assms(1) by (simp add: log_less_iff)
  qed
  ultimately have "0 \<le> \<lfloor>log 2 \<bar>x\<bar>\<rfloor> \<and> \<lfloor>log 2 \<bar>x\<bar>\<rfloor> \<le> 52" by linarith
  then show ?thesis unfolding double_exp_def by linarith
qed

lemma round_double_int:
  assumes "\<bar>n\<bar> < 2 ^ 53"
  shows "round_double (of_int n) = Fin (of_int n)"
proof (cases "n = 0")
  case True
  then show ?thesis by (simp add: round_double_def)
next
  case False
  let ?x = "real_of_int n"
  define e where "e = double_exp ?x"
  have a: "1 \<le> \<bar>?x\<bar>" using False by (simp flip: of_int_abs)
  have b: "\<bar>?x\<bar> < 2 ^ 53"
  proof -
    have "real_of_int \<bar>n\<bar> < real_of_int (2 ^ 53)" using assms by (simp only: of_int_less_iff)
    then show ?thesis by simp
  qed
  have eb: "- 52 \<le> e \<and> e \<le> 0" unfolding e_def using double_exp_bounds [OF a b] .
  have p: "(2::real) powr of_int e = 1 / 2 ^ nat (- e)"
  proof -
    have "2 powr real_of_int e = 2 powr (- real (nat (- e)))" using eb by simp
    also have "\<dots> = 1 / 2 powr real (nat (- e))" by (simp add: powr_minus field_simps)
    also have "\<dots> = 1 / 2 ^ nat (- e)" by (simp add: powr_realpow)
    finally show ?thesis .
  qed
  have q: "?x / 2 powr of_int e = of_int (n * 2 ^ nat (- e))"
    unfolding p by simp
  have lt: "\<bar>?x\<bar> < 2 ^ 1024"
  proof -
    have "(2::real) ^ 53 \<le> 2 ^ 1024" by (rule power_increasing) simp_all
    then show ?thesis using b by linarith
  qed
  show ?thesis
    using round_double_exact [of ?x "n * 2 ^ nat (- e)"] False lt q unfolding e_def by simp
qed

lemma float_of_str_5: "float_of_str ''5'' = Inr (Fin 5)"
proof -
  have "round_double 5 = Fin 5" using round_double_int [of 5] by simp
  then show ?thesis
    by (simp add: float_of_str_def float_strip_def float_space_def strip_def isspace_def lower_def lower_char_def
        parse_number_def digitpart_ok_def is_digit_def digitpart_val_def nat_of_str_def
        digit_val_def scale10_def)
qed

lemma float_of_str_nan: "float_of_str ''nan'' = Inr NaN"
  by (simp add: float_of_str_def float_strip_def float_space_def strip_def isspace_def lower_def lower_char_def)

lemma float_of_str_x: "float_of_str ''x'' = Inl ValueError"
  by (simp add: float_of_str_def float_strip_def float_space_def strip_def isspace_def lower_def lower_char_def
        parse_number_def digitpart_ok_def is_digit_def)

lemma round_double_eval:
  fixes x :: real
  assumes "2 powr of_int k \<le> \<bar>x\<bar>" "\<bar>x\<bar> < 2 powr of_int (k + 1)"
    and "e = max (k - 52) (- 1074)"
    and "m = round_half_even (x / 2 powr of_int e)"
    and "\<bar>real_of_int m * 2 powr of_int e\<bar> < 2 ^ 1024"
  shows "round_double x = Fin (of_int m * 2 powr of_int e)"
proof -
  have nz: "x \<noteq> 0" using assms(1) by (smt (verit) powr_gt_zero)
  have de: "double_exp x = e"
    unfolding double_exp_def using floor_log2_eq [OF assms(1,2)] assms(3) by simp
  have no: "\<not> (2 ^ 1024 \<le> \<bar>real_of_int m * 2 powr of_int e\<bar>)"
    using assms(5) by (simp only: not_le)
  show ?thesis
    unfolding round_double_def Let_def de assms(4) [symmetric]
    using nz no by (simp only: if_False)
qed

lemma lit_3_256: "round_double (3256/1000) = Fin (7331860193359167 / 2 ^ 51)"
proof -
  have "round_double (3256/1000) = Fin (of_int 7331860193359167 * 2 powr of_int (- 51))"
  proof (rule round_double_eval [where k = 1])
    show "2 powr real_of_int 1 \<le> \<bar>3256 / 1000 :: real\<bar>" by simp
    show "\<bar>3256 / 1000 :: real\<bar> < 2 powr real_of_int (1 + 1)" by simp
    show "- 51 = max (1 - 52) (- 1074 :: int)" by simp
    show "7331860193359167 = round_half_even (3256 / 1000 / 2 powr real_of_int (- 51))"
      by (simp add: powr_minus round_half_even_def powr_numeral)
    show "\<bar>real_of_int 7331860193359167 * 2 powr real_of_int (- 51)\<bar> < 2 ^ 1024"
      by (simp add: powr_minus powr_numeral)
  qed
  then show ?thesis by (simp add: powr_minus powr_numeral field_simps)
qed

section \<open>Properties of the filter\<close>

lemma str_in_iff: "str_in q s \<longleftrightarrow> (\<exists>pre post. s = pre @ q @ post)"
proof (induction s)
  case Nil
  then show ?case by auto
next
  case (Cons x xs)
  show ?case
  proof
    assume "str_in q (x # xs)"
    then consider "take (length q) (x # xs) = q" | "str_in q xs" by auto
    then show "\<exists>pre post. x # xs = pre @ q @ post"
    proof cases
      case 1
      then have "x # xs = [] @ q @ drop (length q) (x # xs)"
        by (metis append_Nil append_take_drop_id)
      then show ?thesis by blast
    next
      case 2
      then obtain pre post where "xs = pre @ q @ post" using Cons.IH by blast
      then have "x # xs = (x # pre) @ q @ post" by simp
      then show ?thesis by blast
    qed
  next
    assume "\<exists>pre post. x # xs = pre @ q @ post"
    then obtain pre post where e: "x # xs = pre @ q @ post" by blast
    show "str_in q (x # xs)"
    proof (cases pre)
      case Nil
      then have "take (length q) (x # xs) = q" using e by simp
      then show ?thesis by simp
    next
      case (Cons p ps)
      then have "xs = ps @ q @ post" using e by simp
      then have "str_in q xs" using Cons.IH by blast
      then show ?thesis by simp
    qed
  qed
qed

lemma insert_rows_state: "filtered_items (state_of (refresh_table its st)) = filtered_items st"
  unfolding refresh_table_def by (cases "insert_rows its []"; cases "snd (insert_rows its [])") auto

lemma apply_filters_filtered:
  assumes "parse_range (strip (min_var st)) (strip (max_var st)) (unit_var st) = Inr (min_gp, max_gp)"
  shows "filtered_items (state_of (apply_filters st))
       = filter (keeps (lower (strip (name_var st))) min_gp max_gp) (items st)"
  unfolding apply_filters_def Let_def assms by (simp add: insert_rows_state)

lemma keeps_iff:
  "keeps q min_gp max_gp (name, price) \<longleftrightarrow>
     (q = [] \<or> str_in q (lower name))
     \<and> (\<forall>m. min_gp = Some m \<longrightarrow> \<not> flt price m)
     \<and> (\<forall>m. max_gp = Some m \<longrightarrow> \<not> flt m price)"
  by (cases min_gp; cases max_gp) (auto simp: keeps_def fgt_def)

lemma not_flt_iff_fge: "a \<noteq> NaN \<Longrightarrow> b \<noteq> NaN \<Longrightarrow> \<not> flt a b \<longleftrightarrow> fge a b"
  by (cases a; cases b) (auto simp: fge_def)

lemma not_flt_iff_fle: "a \<noteq> NaN \<Longrightarrow> b \<noteq> NaN \<Longrightarrow> \<not> flt b a \<longleftrightarrow> fle a b"
  by (cases a; cases b) auto

lemma parse_bound_cases:
  assumes "unit_rate unit = Inr r"
  shows "parse_bound s unit =
     (if s = [] then Inr None
      else case float_of_str s of Inl e \<Rightarrow> Inl e | Inr x \<Rightarrow> Inr (Some (fmul x r)))"
  by (simp add: parse_bound_def to_gp_def bind_err_def assms split: sum.splits)

lemma float_of_str_error: "float_of_str s = Inl e \<Longrightarrow> e = ValueError"
  by (auto simp: float_of_str_def Let_def split: if_splits option.splits prod.splits)

lemma unit_rate_known: "unit \<in> set UNITS \<Longrightarrow> \<exists>r. unit_rate unit = Inr r"
  by (auto simp: UNITS_def unit_rate_def UNIT_TO_GP_def)

lemma parse_range_ok:
  assumes "unit_rate unit = Inr r"
    and "min_s = [] \<and> min_gp = None
         \<or> min_s \<noteq> [] \<and> (\<exists>x. float_of_str min_s = Inr x \<and> min_gp = Some (fmul x r))"
    and "max_s = [] \<and> max_gp = None
         \<or> max_s \<noteq> [] \<and> (\<exists>x. float_of_str max_s = Inr x \<and> max_gp = Some (fmul x r))"
  shows "parse_range min_s max_s unit = Inr (min_gp, max_gp)"
proof -
  have a: "parse_bound min_s unit = Inr min_gp"
    using assms(2) by (auto simp: parse_bound_cases [OF assms(1)])
  have b: "parse_bound max_s unit = Inr max_gp"
    using assms(3) by (auto simp: parse_bound_cases [OF assms(1)])
  show ?thesis by (simp add: parse_range_def bind_err_def a b)
qed

text \<open>
  C1 (amended). When the unit is known and the bounds that are given parse, the filter
  outputs, in the order of the catalog, exactly the items such that the stripped lowercased
  query is empty or occurs in the lowercased name, and the price is not below the minimum
  converted to gp (when one is given), and not above the maximum converted to gp (when one
  is given). Where no price and no bound is NaN, "not below" and "not above" are \<open>\<ge>\<close> and \<open>\<le>\<close>.
\<close>

theorem filter_selects_exactly:
  assumes "unit_rate (unit_var st) = Inr r"
    and "strip (min_var st) = [] \<and> min_gp = None
         \<or> strip (min_var st) \<noteq> []
           \<and> (\<exists>x. float_of_str (strip (min_var st)) = Inr x \<and> min_gp = Some (fmul x r))"
    and "strip (max_var st) = [] \<and> max_gp = None
         \<or> strip (max_var st) \<noteq> []
           \<and> (\<exists>x. float_of_str (strip (max_var st)) = Inr x \<and> max_gp = Some (fmul x r))"
    and "q = lower (strip (name_var st))"
  shows "filtered_items (state_of (apply_filters st))
         = filter (\<lambda>(name, price).
               (q = [] \<or> (\<exists>pre post. lower name = pre @ q @ post))
               \<and> (\<forall>m. min_gp = Some m \<longrightarrow> \<not> flt price m)
               \<and> (\<forall>m. max_gp = Some m \<longrightarrow> \<not> flt m price)) (items st)
       \<and> ((\<forall>(name, price) \<in> set (items st). price \<noteq> NaN)
            \<and> min_gp \<noteq> Some NaN \<and> max_gp \<noteq> Some NaN \<longrightarrow>
          filtered_items (state_of (apply_filters st))
          = filter (\<lambda>(name, price).
               (q = [] \<or> (\<exists>pre post. lower name = pre @ q @ post))
               \<and> (\<forall>m. min_gp = Some m \<longrightarrow> fge price m)
               \<and> (\<forall>m. max_gp = Some m \<longrightarrow> fle price m)) (items st))"
proof -
  have pr: "parse_range (strip (min_var st)) (strip (max_var st)) (unit_var st)
      = Inr (min_gp, max_gp)"
    using assms(1,2,3) by (rule parse_range_ok)
  have f: "filtered_items (state_of (apply_filters st)) = filter (keeps q min_gp max_gp) (items st)"
    unfolding assms(4) using pr by (rule apply_filters_filtered)
  have a: "filter (keeps q min_gp max_gp) (items st)
         = filter (\<lambda>(name, price).
               (q = [] \<or> (\<exists>pre post. lower name = pre @ q @ post))
               \<and> (\<forall>m. min_gp = Some m \<longrightarrow> \<not> flt price m)
               \<and> (\<forall>m. max_gp = Some m \<longrightarrow> \<not> flt m price)) (items st)"
  proof (rule filter_cong [OF refl])
    fix item assume "item \<in> set (items st)"
    obtain name price where np: "item = (name, price)" by (cases item)
    show "keeps q min_gp max_gp item
        = (case item of (name, price) \<Rightarrow>
             (q = [] \<or> (\<exists>pre post. lower name = pre @ q @ post))
             \<and> (\<forall>m. min_gp = Some m \<longrightarrow> \<not> flt price m)
             \<and> (\<forall>m. max_gp = Some m \<longrightarrow> \<not> flt m price))"
      unfolding np keeps_iff str_in_iff by simp
  qed
  have b: "filter (keeps q min_gp max_gp) (items st)
         = filter (\<lambda>(name, price).
               (q = [] \<or> (\<exists>pre post. lower name = pre @ q @ post))
               \<and> (\<forall>m. min_gp = Some m \<longrightarrow> fge price m)
               \<and> (\<forall>m. max_gp = Some m \<longrightarrow> fle price m)) (items st)"
    if nn: "\<forall>(name, price) \<in> set (items st). price \<noteq> NaN"
      and mn: "min_gp \<noteq> Some NaN" and mx: "max_gp \<noteq> Some NaN"
  proof (rule filter_cong [OF refl])
    fix item assume i: "item \<in> set (items st)"
    obtain name price where np: "item = (name, price)" by (cases item)
    have p: "price \<noteq> NaN" using nn i np by auto
    have 1: "(\<forall>m. min_gp = Some m \<longrightarrow> \<not> flt price m) \<longleftrightarrow> (\<forall>m. min_gp = Some m \<longrightarrow> fge price m)"
      using mn p not_flt_iff_fge by (cases min_gp) auto
    have 2: "(\<forall>m. max_gp = Some m \<longrightarrow> \<not> flt m price) \<longleftrightarrow> (\<forall>m. max_gp = Some m \<longrightarrow> fle price m)"
      using mx p not_flt_iff_fle by (cases max_gp) auto
    show "keeps q min_gp max_gp item
        = (case item of (name, price) \<Rightarrow>
             (q = [] \<or> (\<exists>pre post. lower name = pre @ q @ post))
             \<and> (\<forall>m. min_gp = Some m \<longrightarrow> fge price m)
             \<and> (\<forall>m. max_gp = Some m \<longrightarrow> fle price m))"
      unfolding np keeps_iff str_in_iff 1 2 by simp
  qed
  show ?thesis using f a b by simp
qed

lemma float_of_str_1: "float_of_str ''1'' = Inr (Fin 1)"
proof -
  have "round_double 1 = Fin 1" using round_double_int [of 1] by simp
  then show ?thesis
    by (simp add: float_of_str_def float_strip_def float_space_def strip_def isspace_def lower_def lower_char_def
        parse_number_def digitpart_ok_def is_digit_def digitpart_val_def nat_of_str_def
        digit_val_def scale10_def)
qed

lemma float_of_str_10: "float_of_str ''10'' = Inr (Fin 10)"
proof -
  have "round_double 10 = Fin 10" using round_double_int [of 10] by simp
  then show ?thesis
    by (simp add: float_of_str_def float_strip_def float_space_def strip_def isspace_def lower_def lower_char_def
        parse_number_def digitpart_ok_def is_digit_def digitpart_val_def nat_of_str_def
        digit_val_def scale10_def)
qed

lemma unit_rate_gp: "unit_rate ''gp'' = Inr (Fin 1)"
  by (simp add: unit_rate_def UNIT_TO_GP_def)

lemma round_double_small_ints:
  "round_double 1 = Fin 1" "round_double 10 = Fin 10"
  using round_double_int [of 1] round_double_int [of 10] by simp_all

theorem filter_selects_exactly_witness:
  "filtered_items (state_of (apply_filters
      (init_app\<lparr>items := [(''Dagger'', Fin 2), (''Longsword'', Fin 15)],
                min_var := ''1'', max_var := ''10''\<rparr>)))
   = [(''Dagger'', Fin 2)]"
proof -
  let ?st = "init_app\<lparr>items := [(''Dagger'', Fin 2), (''Longsword'', Fin 15)],
                min_var := ''1'', max_var := ''10''\<rparr>"
  have u: "unit_rate (unit_var ?st) = Inr (Fin 1)"
    by (simp add: init_app_def unit_rate_gp)
  have mn: "strip (min_var ?st) = [] \<and> Some (Fin 1) = None
         \<or> strip (min_var ?st) \<noteq> []
           \<and> (\<exists>x. float_of_str (strip (min_var ?st)) = Inr x \<and> Some (Fin 1) = Some (fmul x (Fin 1)))"
    by (simp add: init_app_def strip_def isspace_def float_of_str_1 round_double_small_ints)
  have mx: "strip (max_var ?st) = [] \<and> Some (Fin 10) = None
         \<or> strip (max_var ?st) \<noteq> []
           \<and> (\<exists>x. float_of_str (strip (max_var ?st)) = Inr x \<and> Some (Fin 10) = Some (fmul x (Fin 1)))"
    by (simp add: init_app_def strip_def isspace_def float_of_str_10 round_double_small_ints)
  have q: "[] = lower (strip (name_var ?st))"
    by (simp add: init_app_def strip_def lower_def)
  have nn: "(\<forall>(name, price) \<in> set (items ?st). price \<noteq> NaN)
      \<and> Some (Fin 1) \<noteq> Some NaN \<and> Some (Fin 10) \<noteq> Some NaN"
    by simp
  have "filtered_items (state_of (apply_filters ?st))
      = filter (\<lambda>(name, price).
               (([]::string) = [] \<or> (\<exists>pre post. lower name = pre @ [] @ post))
               \<and> (\<forall>m. Some (Fin 1) = Some m \<longrightarrow> fge price m)
               \<and> (\<forall>m. Some (Fin 10) = Some m \<longrightarrow> fle price m)) (items ?st)"
    using conjunct2 [OF filter_selects_exactly [OF u mn mx q], THEN mp, OF nn] .
  then show ?thesis by (simp add: init_app_def fge_def)
qed

text \<open>
  C1 as stated fails on a NaN bound: with \<open>nan\<close> in the minimum field every item is kept,
  although no price is \<open>\<ge>\<close> NaN.
\<close>

theorem filter_nan_bound_counterexample:
  "filtered_items (state_of (apply_filters
      (init_app\<lparr>items := [(''Dagger'', Fin 2)], min_var := ''nan''\<rparr>)))
   = [(''Dagger'', Fin 2)]
   \<and> parse_bound (strip ''nan'') ''gp'' = Inr (Some NaN)
   \<and> \<not> fge (Fin 2) NaN"
proof -
  let ?st = "init_app\<lparr>items := [(''Dagger'', Fin 2)], min_var := ''nan''\<rparr>"
  have s: "strip ''nan'' = ''nan''" by (simp add: strip_def isspace_def)
  have pb: "parse_bound ''nan'' ''gp'' = Inr (Some NaN)"
    by (simp add: parse_bound_cases [OF unit_rate_gp] float_of_str_nan)
  have f: "strip (min_var ?st) = ''nan''" "strip (max_var ?st) = []" "unit_var ?st = ''gp''"
    by (simp_all add: init_app_def strip_def isspace_def)
  have pe: "parse_bound [] ''gp'' = Inr None" by (simp add: parse_bound_def)
  have pr: "parse_range (strip (min_var ?st)) (strip (max_var ?st)) (unit_var ?st)
      = Inr (Some NaN, None)"
    unfolding f by (simp add: parse_range_def bind_err_def pb pe)
  have "filtered_items (state_of (apply_filters ?st))
      = filter (keeps (lower (strip (name_var ?st))) (Some NaN) None) (items ?st)"
    using pr by (rule apply_filters_filtered)
  then have "filtered_items (state_of (apply_filters ?st)) = [(''Dagger'', Fin 2)]"
    by (simp add: init_app_def keeps_def strip_def lower_def)
  then show ?thesis using pb s by (simp add: fge_def)
qed

section \<open>Properties of the range validation\<close>

lemma refresh_table_not_warned: "refresh_table its st \<noteq> Warned t st'"
  unfolding refresh_table_def by (cases "insert_rows its []"; cases "snd (insert_rows its [])") auto

lemma parse_range_error:
  assumes "unit_rate unit = Inr r"
  shows "parse_range min_s max_s unit = Inl e \<longleftrightarrow>
      e = ValueError
      \<and> ((min_s \<noteq> [] \<and> \<not> (\<exists>x. float_of_str min_s = Inr x))
         \<or> (max_s \<noteq> [] \<and> \<not> (\<exists>x. float_of_str max_s = Inr x)))"
proof -
  have v: "\<And>s. (\<not> (\<exists>x. float_of_str s = Inr x)) \<longleftrightarrow> float_of_str s = Inl ValueError"
    by (metis float_of_str_error sum.exhaust_sel sum.distinct(1) sum.collapse(1))
  show ?thesis
    unfolding parse_range_def bind_err_def parse_bound_cases [OF assms] v
    by (auto split: sum.splits dest: float_of_str_error)
qed

text \<open>
  C5 (amended). With a unit of the menu, the filter shows the \<open>Invalid Range\<close> warning exactly
  when the minimum or the maximum field, stripped of surrounding whitespace, is non-empty
  and \<open>float\<close> rejects it (\<open>float\<close> accepts decimal numbers and also \<open>inf\<close>, \<open>infinity\<close> and \<open>nan\<close>);
  then the state (the filtered list and the displayed rows) is the one before the action.
\<close>

theorem invalid_range_iff_unparsable:
  assumes "unit_var st \<in> set UNITS"
  shows "(apply_filters st = Warned ''Invalid Range'' st \<longleftrightarrow>
           (strip (min_var st) \<noteq> [] \<and> \<not> (\<exists>x. float_of_str (strip (min_var st)) = Inr x))
           \<or> (strip (max_var st) \<noteq> [] \<and> \<not> (\<exists>x. float_of_str (strip (max_var st)) = Inr x)))
       \<and> (\<forall>t st'. apply_filters st = Warned t st' \<longrightarrow> t = ''Invalid Range'' \<and> st' = st)"
proof -
  obtain r where r: "unit_rate (unit_var st) = Inr r"
    using unit_rate_known [OF assms] by blast
  let ?bad = "(strip (min_var st) \<noteq> [] \<and> \<not> (\<exists>x. float_of_str (strip (min_var st)) = Inr x))
           \<or> (strip (max_var st) \<noteq> [] \<and> \<not> (\<exists>x. float_of_str (strip (max_var st)) = Inr x))"
  let ?pr = "parse_range (strip (min_var st)) (strip (max_var st)) (unit_var st)"
  show ?thesis
  proof (cases ?pr)
    case (Inl e)
    then have e: "e = ValueError" and bad: ?bad
      using parse_range_error [OF r] by blast+
    have "apply_filters st = Warned ''Invalid Range'' st"
      unfolding apply_filters_def Let_def Inl e by simp
    then show ?thesis using bad by simp
  next
    case (Inr p)
    have nb: "\<not> ?bad"
    proof
      assume ?bad
      then have "?pr = Inl ValueError"
        using parse_range_error [OF r, of "strip (min_var st)" "strip (max_var st)" ValueError]
        by blast
      then show False using Inr by simp
    qed
    obtain a b where p: "p = (a, b)" by (cases p)
    have "\<And>t st'. apply_filters st \<noteq> Warned t st'"
      unfolding apply_filters_def Let_def Inr p by (simp add: refresh_table_not_warned)
    then show ?thesis using nb by simp
  qed
qed

theorem invalid_range_iff_unparsable_witness:
  "apply_filters (init_app\<lparr>filtered_items := [(''Dagger'', Fin 2)],
       tree := [[''Dagger'', ''0.20'', ''2'', ''4'', ''20'', ''200'']], max_var := '' x ''\<rparr>)
   = Warned ''Invalid Range'' (init_app\<lparr>filtered_items := [(''Dagger'', Fin 2)],
       tree := [[''Dagger'', ''0.20'', ''2'', ''4'', ''20'', ''200'']], max_var := '' x ''\<rparr>)"
proof -
  let ?st = "init_app\<lparr>filtered_items := [(''Dagger'', Fin 2)],
       tree := [[''Dagger'', ''0.20'', ''2'', ''4'', ''20'', ''200'']], max_var := '' x ''\<rparr>"
  have u: "unit_var ?st \<in> set UNITS" by (simp add: init_app_def UNITS_def)
  have s: "strip (max_var ?st) = ''x''" by (simp add: strip_def isspace_def)
  have "strip (max_var ?st) \<noteq> [] \<and> \<not> (\<exists>x. float_of_str (strip (max_var ?st)) = Inr x)"
    unfolding s by (simp add: float_of_str_x)
  then show ?thesis
    using conjunct1 [OF invalid_range_iff_unparsable [OF u], THEN iffD2] by blast
qed

text \<open>
  C5 as stated fails on a blank field and on \<open>nan\<close>: the minimum field holds one space (not
  empty, and \<open>float\<close> rejects it) and the maximum field holds \<open>nan\<close> (which is not a real number),
  yet the filter completes without a warning.
\<close>

theorem blank_and_nan_fields_no_warning_counterexample:
  "apply_filters (init_app\<lparr>min_var := '' '', max_var := ''nan''\<rparr>)
     = Updated (init_app\<lparr>min_var := '' '', max_var := ''nan'', filtered_items := [], tree := []\<rparr>)
   \<and> float_of_str '' '' = Inl ValueError
   \<and> float_of_str ''nan'' = Inr NaN"
proof -
  let ?st = "init_app\<lparr>min_var := '' '', max_var := ''nan''\<rparr>"
  have f: "strip (min_var ?st) = []" "strip (max_var ?st) = ''nan''" "unit_var ?st = ''gp''"
    "items ?st = []" "lower (strip (name_var ?st)) = []"
    by (simp_all add: init_app_def strip_def isspace_def lower_def)
  have pb: "parse_bound ''nan'' ''gp'' = Inr (Some NaN)"
    by (simp add: parse_bound_cases [OF unit_rate_gp] float_of_str_nan)
  have pe: "parse_bound [] ''gp'' = Inr None" by (simp add: parse_bound_def)
  have pr: "parse_range [] ''nan'' ''gp'' = Inr (None, Some NaN)"
    by (simp add: parse_range_def bind_err_def pb pe)
  have a: "apply_filters ?st
      = Updated (init_app\<lparr>min_var := '' '', max_var := ''nan'', filtered_items := [], tree := []\<rparr>)"
    unfolding apply_filters_def Let_def f pr
    by (simp add: refresh_table_def)
  have b: "float_of_str '' '' = Inl ValueError"
    by (simp add: float_of_str_def float_strip_def float_space_def lower_def lower_char_def
        parse_number_def digitpart_ok_def is_digit_def)
  show ?thesis using a b float_of_str_nan by simp
qed

section \<open>Properties of the loader\<close>

lemma py_float_error:
  "py_float v = Inl e \<Longrightarrow> e = TypeError \<or> e = ValueError \<or> e = OverflowError"
  by (cases v) (auto split: pyfloat.splits dest: float_of_str_error)

lemma map_of_dict_update: "map_of (dict_update merged data) = map_of merged ++ map_of (rev data)"
  unfolding dict_update_def
proof (induction data arbitrary: merged)
  case Nil
  then show ?case by simp
next
  case (Cons kv data)
  obtain k v where kv: "kv = (k, v)" by (cases kv)
  have "map_of (foldl (\<lambda>m (k, v). AList.update k v m) (AList.update k v merged) data)
      = map_of (AList.update k v merged) ++ map_of (rev data)"
    by (rule Cons.IH)
  also have "\<dots> = (map_of merged)(k \<mapsto> v) ++ map_of (rev data)"
    by (simp add: update_conv')
  also have "\<dots> = map_of merged ++ map_of (rev data @ [(k, v)])"
    by (simp add: map_add_upd_left map_add_def fun_eq_iff split: option.splits)
  finally show ?case by (simp add: kv)
qed

lemma distinct_dict_update:
  "distinct (map fst merged) \<Longrightarrow> distinct (map fst (dict_update merged data))"
  unfolding dict_update_def
  by (induction data arbitrary: merged) (auto simp: distinct_update)

lemmas float_of_str_eval =
  float_of_str_def float_strip_def float_space_def strip_def isspace_def lower_def lower_char_def parse_number_def
  parse_exponent_def digitpart_ok_def is_digit_def digitpart_val_def nat_of_str_def
  digit_val_def scale10_def

lemma accepted_Nil: "accepted [] = []"
  by (simp add: accepted_def map_filter_simps)

lemma accepted_Cons:
  "accepted ((k, v) # kvs) =
     (case k of
        None \<Rightarrow> accepted kvs
      | Some key \<Rightarrow> (case py_float v of Inr x \<Rightarrow> (strip key, x) # accepted kvs
                     | Inl _ \<Rightarrow> accepted kvs))"
  by (simp add: accepted_def map_filter_simps split: option.splits sum.splits)

lemma dict_update_Cons:
  "dict_update merged ((k, v) # data) = dict_update (AList.update k v merged) data"
  by (simp add: dict_update_def)

lemma clean_loop_accepted:
  assumes "\<forall>(k, v) \<in> set kvs. k \<noteq> None \<longrightarrow> py_float v \<noteq> Inl OverflowError"
  shows "clean_loop kvs cleaned = Inr (dict_update cleaned (accepted kvs))"
  using assms
proof (induction kvs arbitrary: cleaned)
  case Nil
  then show ?case by (simp add: accepted_Nil dict_update_def)
next
  case (Cons kv kvs)
  obtain k v where kv: "kv = (k, v)" by (cases kv)
  have rest: "\<forall>(k, v) \<in> set kvs. k \<noteq> None \<longrightarrow> py_float v \<noteq> Inl OverflowError"
    using Cons.prems by simp
  note IH = Cons.IH [OF rest]
  show ?case
  proof (cases k)
    case None
    then show ?thesis by (simp add: kv accepted_Cons IH)
  next
    case (Some key)
    show ?thesis
    proof (cases "py_float v")
      case (Inl e)
      have "e \<noteq> OverflowError" using Cons.prems Inl Some kv by auto
      then have "e = TypeError \<or> e = ValueError" using py_float_error [OF Inl] by simp
      then show ?thesis by (auto simp: kv Some Inl accepted_Cons IH)
    next
      case (Inr x)
      then show ?thesis by (simp add: kv Some accepted_Cons IH dict_update_Cons)
    qed
  qed
qed

lemma set_accepted:
  "set (accepted kvs)
   = {(strip key, x) | key v x. (Some key, v) \<in> set kvs \<and> py_float v = Inr x}"
proof (induction kvs)
  case Nil
  then show ?case by (simp add: accepted_Nil)
next
  case (Cons kv kvs)
  obtain k v where kv: "kv = (k, v)" by (cases kv)
  show ?case
    unfolding kv accepted_Cons using Cons.IH
    by (cases k; cases "py_float v") auto
qed

text \<open>
  C4 (amended). For a top-level object none of whose integer values is too large for a
  float, the loader returns a catalog with distinct names in which every name has the value
  of the last entry that has this name as its stripped key and a value that reads as a
  float; entries with a null key or with another value contribute nothing, and nothing else
  is in the catalog.
\<close>

theorem load_object_last_entry_wins:
  assumes "json_loads content = Inr (JDict kvs)"
    and "\<forall>(k, v) \<in> set kvs. k \<noteq> None \<longrightarrow> py_float v \<noteq> Inl OverflowError"
  shows "\<exists>cleaned. load_prices_json json_loads (Some (Readable content)) = Inr cleaned
      \<and> distinct (map fst cleaned)
      \<and> map_of cleaned = map_of (rev (accepted kvs))
      \<and> set (accepted kvs)
          = {(strip key, x) | key v x. (Some key, v) \<in> set kvs \<and> py_float v = Inr x}"
proof -
  have l: "load_prices_json json_loads (Some (Readable content))
      = Inr (dict_update [] (accepted kvs))"
    using assms(1) clean_loop_accepted [OF assms(2)]
    by (simp add: load_prices_json_def clean_prices_def)
  have d: "distinct (map fst (dict_update [] (accepted kvs)))"
    by (rule distinct_dict_update) simp
  have m: "map_of (dict_update [] (accepted kvs)) = map_of (rev (accepted kvs))"
    by (simp add: map_of_dict_update)
  show ?thesis using l d m set_accepted by blast
qed

lemma round_double_2_15: "round_double 2 = Fin 2" "round_double 15 = Fin 15"
  using round_double_int [of 2] round_double_int [of 15] by simp_all

lemma float_of_str_15: "float_of_str ''15'' = Inr (Fin 15)"
  by (simp add: float_of_str_eval round_double_2_15)

theorem load_object_last_entry_wins_witness:
  "\<exists>cleaned.
     load_prices_json
       (\<lambda>s. Inr (JDict [(Some '' Dagger '', JInt 2), (Some ''x'', JNull), (None, JInt 1),
                          (Some ''Longsword'', JStr ''15'')]))
       (Some (Readable [])) = Inr cleaned
     \<and> map_of cleaned ''Dagger'' = Some (Fin 2)
     \<and> map_of cleaned ''Longsword'' = Some (Fin 15)
     \<and> map_of cleaned ''x'' = None"
proof -
  let ?kvs = "[(Some '' Dagger '', JInt 2), (Some ''x'', JNull), (None, JInt 1),
               (Some ''Longsword'', JStr ''15'')]"
  have a: "(\<lambda>s. Inr (JDict ?kvs)) [] = Inr (JDict ?kvs)" by simp
  have b: "\<forall>(k, v) \<in> set ?kvs. k \<noteq> None \<longrightarrow> py_float v \<noteq> Inl OverflowError"
    by (simp add: round_double_2_15 float_of_str_15)
  have acc: "accepted ?kvs = [(''Dagger'', Fin 2), (''Longsword'', Fin 15)]"
    by (simp add: accepted_Cons accepted_Nil round_double_2_15 float_of_str_15 strip_def isspace_def)
  obtain cleaned where
    "load_prices_json (\<lambda>s. Inr (JDict ?kvs)) (Some (Readable [])) = Inr cleaned"
    "map_of cleaned = map_of (rev (accepted ?kvs))"
    using load_object_last_entry_wins [of "\<lambda>s. Inr (JDict ?kvs)" "[]" ?kvs, OF a b] by blast
  then show ?thesis unfolding acc by auto
qed

text \<open>
  C4 as stated fails when two keys are equal after stripping: the earlier entry has a key
  and a numeric value, and the result does not hold its value.
\<close>

theorem load_stripped_keys_collide_counterexample:
  "load_prices_json (\<lambda>s. Inr (JDict [(Some '' a'', JInt 1), (Some ''a'', JInt 2)]))
     (Some (Readable [])) = Inr [(''a'', Fin 2)]
   \<and> py_float (JInt 1) = Inr (Fin 1) \<and> strip '' a'' = ''a''"
  by (simp add: load_prices_json_def clean_prices_def round_double_small_ints
      round_double_2_15 strip_def isspace_def)

section \<open>Overflow of the float coercion\<close>

lemma floor_le_round_half_even: "\<lfloor>x\<rfloor> \<le> round_half_even x"
  by (simp add: round_half_even_def Let_def)

lemma round_double_overflow:
  fixes x :: real
  assumes "2 ^ 1024 \<le> x"
  shows "round_double x = PInf"
proof -
  have big: "(2::real) ^ 1024 = 2 powr 1024" by (simp add: powr_numeral)
  have pos: "0 < x" using assms by (smt (verit) zero_less_power)
  define L where "L = \<lfloor>log 2 \<bar>x\<bar>\<rfloor>"
  have ax: "\<bar>x\<bar> = x" using pos by simp
  have "1024 \<le> log 2 x"
    using assms pos unfolding big by (simp add: le_log_iff)
  then have L1024: "1024 \<le> L" unfolding L_def ax by linarith
  have "of_int L \<le> log 2 x" unfolding L_def ax by simp
  then have Lx: "2 powr of_int L \<le> x" using pos by (simp add: le_log_iff)
  have e: "double_exp x = L - 52"
    unfolding double_exp_def L_def [symmetric] using L1024 by simp
  define m where "m = round_half_even (x / 2 powr of_int (L - 52))"
  have "2 powr of_int L / 2 powr of_int (L - 52) \<le> x / 2 powr of_int (L - 52)"
    using Lx by (simp add: divide_right_mono)
  moreover have "(2::real) powr real_of_int L / 2 powr of_int (L - 52) = 2 powr 52"
  proof -
    have "(2::real) powr real_of_int L / 2 powr of_int (L - 52)
        = 2 powr (real_of_int L - real_of_int (L - 52))"
      by (rule powr_diff [symmetric])
    also have "real_of_int L - real_of_int (L - 52) = 52" by simp
    finally show ?thesis .
  qed
  ultimately have q: "of_int (2 ^ 52) \<le> x / 2 powr of_int (L - 52)"
    by (simp add: powr_numeral)
  have "(2 ^ 52 :: int) \<le> \<lfloor>x / 2 powr of_int (L - 52)\<rfloor>"
    using q by (simp only: le_floor_iff)
  then have m52: "2 ^ 52 \<le> m"
    unfolding m_def using floor_le_round_half_even order_trans by blast
  then have "real_of_int (2 ^ 52) \<le> real_of_int m" by (simp only: of_int_le_iff)
  then have m52r: "(2::real) powr 52 \<le> real_of_int m" by (simp add: powr_numeral)
  have "(2::real) powr 52 * 2 powr real_of_int (L - 52) \<le> real_of_int m * 2 powr real_of_int (L - 52)"
    using m52r by (intro mult_right_mono) simp_all
  moreover have "(2::real) powr 52 * 2 powr real_of_int (L - 52) = 2 powr of_int L"
  proof -
    have "(2::real) powr 52 * 2 powr real_of_int (L - 52) = 2 powr (52 + real_of_int (L - 52))"
      by (rule powr_add [symmetric])
    also have "52 + real_of_int (L - 52) = real_of_int L" by simp
    finally show ?thesis .
  qed
  moreover have "(2::real) powr 1024 \<le> 2 powr of_int L"
  proof (rule powr_mono)
    show "1024 \<le> real_of_int L" using L1024 by simp
    show "(1::real) \<le> 2" by simp
  qed
  ultimately have y: "2 ^ 1024 \<le> of_int m * 2 powr real_of_int (L - 52)"
    unfolding big by linarith
  have mpos: "0 \<le> of_int m * 2 powr real_of_int (L - 52)"
    using y by (smt (verit) zero_le_power)
  have y': "2 ^ 1024 \<le> \<bar>of_int m * 2 powr real_of_int (L - 52)\<bar>"
    using y mpos by linarith
  have nz: "x \<noteq> 0" using pos by simp
  show ?thesis
    unfolding round_double_def Let_def e m_def [symmetric]
    using nz pos y' by (simp only: if_True if_False)
qed

lemma py_float_huge_int: "py_float (JInt (10 ^ 400)) = Inl OverflowError"
proof -
  have "(2::int) ^ 1024 \<le> 10 ^ 400" by simp
  then have "real_of_int (2 ^ 1024) \<le> real_of_int (10 ^ 400)" by (simp only: of_int_le_iff)
  then have "(2::real) ^ 1024 \<le> real_of_int (10 ^ 400)" by simp
  then have "round_double (real_of_int (10 ^ 400)) = PInf" by (rule round_double_overflow)
  then show ?thesis by (simp only: py_float.simps pyfloat.case)
qed

lemma round_double_3_5: "round_double (7 / 2) = Fin (7 / 2)"
proof -
  have "round_double (7 / 2) = Fin (of_int 7881299347898368 * 2 powr of_int (- 51))"
  proof (rule round_double_eval [where k = 1])
    show "2 powr real_of_int 1 \<le> \<bar>7 / 2 :: real\<bar>" by simp
    show "\<bar>7 / 2 :: real\<bar> < 2 powr real_of_int (1 + 1)" by simp
    show "- 51 = max (1 - 52) (- 1074 :: int)" by simp
    show "7881299347898368 = round_half_even (7 / 2 / 2 powr real_of_int (- 51))"
      by (simp add: powr_minus round_half_even_def powr_numeral)
    show "\<bar>real_of_int 7881299347898368 * 2 powr real_of_int (- 51)\<bar> < 2 ^ 1024"
      by (simp add: powr_minus powr_numeral)
  qed
  then show ?thesis by (simp add: powr_minus powr_numeral)
qed

lemma float_of_str_3_5: "float_of_str ''3.5'' = Inr (Fin (7 / 2))"
proof -
  have "float_of_str ''3.5'' = Inr (round_double (7 / 2))"
    by (simp add: float_of_str_eval)
  then show ?thesis by (simp only: round_double_3_5)
qed

text \<open>What the coercion accepts and rejects, on the values the loader can meet.\<close>

lemma coercion_examples:
  "py_float (JStr ''3.5'') = Inr (Fin (7 / 2))"
  "py_float (JStr ''inf'') = Inr PInf"
  "py_float (JStr ''nan'') = Inr NaN"
  "py_float (JBool True) = Inr (Fin 1)"
  "py_float (JBool False) = Inr (Fin 0)"
  "py_float JNull = Inl TypeError"
  "py_float (JStr ''abc'') = Inl ValueError"
  "py_float (JList xs) = Inl TypeError"
  "py_float (JDict kvs) = Inl TypeError"
  by (simp_all add: float_of_str_3_5 float_of_str_nan) (simp_all add: float_of_str_eval)

lemma clean_loop_step:
  "py_float v = Inr x \<Longrightarrow>
     clean_loop ((Some key, v) # rest) cleaned
       = clean_loop rest (AList.update (strip key) x cleaned)"
  "py_float v = Inl TypeError \<or> py_float v = Inl ValueError \<Longrightarrow>
     clean_loop ((Some key, v) # rest) cleaned = clean_loop rest cleaned"
  by auto

text \<open>
  C10. The loader takes a value for a number when \<open>float\<close> accepts it, and skips the entry
  when \<open>float\<close> rejects it with \<open>TypeError\<close> or \<open>ValueError\<close>. An integer too large for a float is
  rejected with \<open>OverflowError\<close>, which the loop does not catch: the load of the whole file
  fails, and the entry \<open>"a": "3.5"\<close> of the same file is not loaded.
\<close>

theorem load_aborts_on_huge_integer:
  "load_prices_json
     (\<lambda>s. Inr (JDict [(Some ''a'', JStr ''3.5''), (Some ''b'', JInt (10 ^ 400))]))
     (Some (Readable [])) = Inl OverflowError
   \<and> py_float (JStr ''3.5'') = Inr (Fin (7 / 2))
   \<and> py_float (JInt (10 ^ 400)) = Inl OverflowError"
proof -
  have s: "strip ''a'' = ''a''" by (simp add: strip_def isspace_def)
  have "clean_loop [(Some ''a'', JStr ''3.5''), (Some ''b'', JInt (10 ^ 400))] []
      = Inl OverflowError"
    by (simp only: clean_loop.simps option.case Let_def py_float.simps(5) float_of_str_3_5
        sum.case py_float_huge_int pyerror.case)
  then show ?thesis
    using py_float_huge_int float_of_str_3_5
    by (simp only: load_prices_json_def clean_prices_def option.case node.case json.case
        sum.case py_float.simps)
qed

section \<open>Properties of the sort\<close>

lemma mset_insort_lt: "mset (insort_lt lt key x ys) = add_mset x (mset ys)"
  by (induction ys) auto

lemma set_insort_lt: "set (insort_lt lt key x ys) = insert x (set ys)"
  by (induction ys) auto

lemma sorted_insort_lt:
  assumes asym: "\<And>a b. lt a b \<Longrightarrow> \<not> lt b a"
    and trans: "\<And>a b c. lt a b \<Longrightarrow> lt b c \<Longrightarrow> lt a c"
    and "sorted_wrt (\<lambda>a b. \<not> lt (key b) (key a)) ys"
  shows "sorted_wrt (\<lambda>a b. \<not> lt (key b) (key a)) (insort_lt lt key x ys)"
  using assms(3)
proof (induction ys)
  case Nil
  then show ?case by simp
next
  case (Cons y ys)
  show ?case
  proof (cases "lt (key x) (key y)")
    case True
    have "\<not> lt (key z) (key x)" if "z \<in> set (y # ys)" for z
    proof
      assume zx: "lt (key z) (key x)"
      then have zy: "lt (key z) (key y)" using True trans by blast
      show False
      proof (cases "z = y")
        case True
        then show ?thesis using zy asym by blast
      next
        case False
        then have "z \<in> set ys" using that by simp
        then show ?thesis using Cons.prems zy by auto
      qed
    qed
    then show ?thesis using True Cons.prems by auto
  next
    case False
    then show ?thesis using Cons by (auto simp: set_insort_lt)
  qed
qed

lemma filter_insort_lt:
  assumes asym: "\<And>a b. lt a b \<Longrightarrow> \<not> lt b a"
    and "sorted_wrt (\<lambda>a b. \<not> lt (key b) (key a)) ys"
  shows "filter (\<lambda>r. key r = k) (insort_lt lt key x ys)
       = filter (\<lambda>r. key r = k) ys @ (if key x = k then [x] else [])"
  using assms(2)
proof (induction ys)
  case Nil
  then show ?case by simp
next
  case (Cons y ys)
  show ?case
  proof (cases "lt (key x) (key y)")
    case True
    have none: "key z \<noteq> key x" if "z \<in> set (y # ys)" for z
    proof
      assume e: "key z = key x"
      then have zy: "lt (key z) (key y)" using True by simp
      show False
      proof (cases "z = y")
        case True
        then show ?thesis using zy asym by blast
      next
        case False
        then have "z \<in> set ys" using that by simp
        then show ?thesis using Cons.prems zy by auto
      qed
    qed
    show ?thesis
    proof (cases "key x = k")
      case kx: True
      have "filter (\<lambda>r. key r = k) (y # ys) = []"
        using none kx by (auto simp: filter_empty_conv)
      then show ?thesis using True kx by simp
    next
      case False
      then show ?thesis using True by simp
    qed
  next
    case False
    then show ?thesis using Cons by auto
  qed
qed

lemma foldl_insort_lt:
  assumes asym: "\<And>a b. lt a b \<Longrightarrow> \<not> lt b a"
    and trans: "\<And>a b c. lt a b \<Longrightarrow> lt b c \<Longrightarrow> lt a c"
    and "sorted_wrt (\<lambda>a b. \<not> lt (key b) (key a)) acc"
  shows "sorted_wrt (\<lambda>a b. \<not> lt (key b) (key a)) (foldl (\<lambda>acc x. insort_lt lt key x acc) acc xs)
     \<and> mset (foldl (\<lambda>acc x. insort_lt lt key x acc) acc xs) = mset acc + mset xs
     \<and> filter (\<lambda>r. key r = k) (foldl (\<lambda>acc x. insort_lt lt key x acc) acc xs)
         = filter (\<lambda>r. key r = k) acc @ filter (\<lambda>r. key r = k) xs"
  using assms(3)
proof (induction xs arbitrary: acc)
  case Nil
  then show ?case by simp
next
  case (Cons x xs)
  have s: "sorted_wrt (\<lambda>a b. \<not> lt (key b) (key a)) (insort_lt lt key x acc)"
    using asym trans Cons.prems by (rule sorted_insort_lt)
  note IH = Cons.IH [OF s]
  have f: "filter (\<lambda>r. key r = k) (insort_lt lt key x acc)
       = filter (\<lambda>r. key r = k) acc @ (if key x = k then [x] else [])"
    using asym Cons.prems by (rule filter_insort_lt)
  show ?case using IH by (simp add: f mset_insort_lt)
qed

text \<open>The sort of the program: ascending, or descending, without inversions, stable, a permutation.\<close>

lemma list_sort_props:
  assumes asym: "\<And>a b. lt a b \<Longrightarrow> \<not> lt b a"
    and trans: "\<And>a b c. lt a b \<Longrightarrow> lt b c \<Longrightarrow> lt a c"
  shows "mset (list_sort lt key reverse xs) = mset xs"
    and "filter (\<lambda>r. key r = k) (list_sort lt key reverse xs) = filter (\<lambda>r. key r = k) xs"
    and "\<not> reverse \<Longrightarrow> sorted_wrt (\<lambda>a b. \<not> lt (key b) (key a)) (list_sort lt key reverse xs)"
    and "reverse \<Longrightarrow> sorted_wrt (\<lambda>a b. \<not> lt (key a) (key b)) (list_sort lt key reverse xs)"
proof -
  have e: "sorted_wrt (\<lambda>a b. \<not> lt (key b) (key a)) []" by simp
  have up: "sorted_wrt (\<lambda>a b. \<not> lt (key b) (key a)) (foldl (\<lambda>acc x. insort_lt lt key x acc) [] xs)
     \<and> mset (foldl (\<lambda>acc x. insort_lt lt key x acc) [] xs) = mset xs
     \<and> filter (\<lambda>r. key r = k) (foldl (\<lambda>acc x. insort_lt lt key x acc) [] xs)
         = filter (\<lambda>r. key r = k) xs"
    using foldl_insort_lt [where lt = lt and key = key and acc = "[]" and xs = xs and k = k,
        OF asym trans e] by simp
  have down: "sorted_wrt (\<lambda>a b. \<not> lt (key b) (key a))
         (foldl (\<lambda>acc x. insort_lt lt key x acc) [] (rev xs))
     \<and> mset (foldl (\<lambda>acc x. insort_lt lt key x acc) [] (rev xs)) = mset xs
     \<and> filter (\<lambda>r. key r = k) (foldl (\<lambda>acc x. insort_lt lt key x acc) [] (rev xs))
         = rev (filter (\<lambda>r. key r = k) xs)"
    using foldl_insort_lt [where lt = lt and key = key and acc = "[]" and xs = "rev xs" and k = k,
        OF asym trans e] by (simp add: rev_filter)
  show "mset (list_sort lt key reverse xs) = mset xs"
    using up down by (simp add: list_sort_def)
  show "filter (\<lambda>r. key r = k) (list_sort lt key reverse xs) = filter (\<lambda>r. key r = k) xs"
  proof (cases reverse)
    case True
    let ?F = "foldl (\<lambda>acc x. insort_lt lt key x acc) [] (rev xs)"
    have "filter (\<lambda>r. key r = k) (rev ?F) = rev (filter (\<lambda>r. key r = k) ?F)"
      by (rule rev_filter [symmetric])
    also have "\<dots> = rev (rev (filter (\<lambda>r. key r = k) xs))"
      using down by (simp only:)
    finally show ?thesis using True by (simp add: list_sort_def)
  next
    case False
    then show ?thesis using up by (simp add: list_sort_def)
  qed
  show "\<not> reverse \<Longrightarrow> sorted_wrt (\<lambda>a b. \<not> lt (key b) (key a)) (list_sort lt key reverse xs)"
    using up by (simp add: list_sort_def)
  show "reverse \<Longrightarrow> sorted_wrt (\<lambda>a b. \<not> lt (key a) (key b)) (list_sort lt key reverse xs)"
    using down by (simp add: list_sort_def sorted_wrt_rev)
qed

lemma flt_asym: "flt a b \<Longrightarrow> \<not> flt b a"
  by (cases a; cases b) auto

lemma flt_trans: "flt a b \<Longrightarrow> flt b c \<Longrightarrow> flt a c"
  by (cases a; cases b; cases c) auto

lemma insort_lt_map:
  assumes "key1 x = key2 (f x)" "\<forall>y \<in> set ys. key1 y = key2 (f y)"
  shows "map f (insort_lt lt key1 x ys) = insort_lt lt key2 (f x) (map f ys)"
  using assms by (induction ys) auto

lemma foldl_insort_lt_map:
  assumes "\<forall>t \<in> set acc \<union> set xs. key1 t = key2 (f t)"
  shows "map f (foldl (\<lambda>acc x. insort_lt lt key1 x acc) acc xs)
       = foldl (\<lambda>acc x. insort_lt lt key2 x acc) (map f acc) (map f xs)"
  using assms
proof (induction xs arbitrary: acc)
  case Nil
  then show ?case by simp
next
  case (Cons x xs)
  have a: "\<forall>t \<in> set (insort_lt lt key1 x acc) \<union> set xs. key1 t = key2 (f t)"
    using Cons.prems by (auto simp: set_insort_lt)
  have b: "map f (insort_lt lt key1 x acc) = insort_lt lt key2 (f x) (map f acc)"
    using Cons.prems by (intro insort_lt_map) auto
  show ?case using Cons.IH [OF a] by (simp add: b)
qed

lemma list_sort_map:
  assumes "\<forall>t \<in> set xs. key1 t = key2 (f t)"
  shows "map f (list_sort lt key1 reverse xs) = list_sort lt key2 reverse (map f xs)"
proof -
  have u: "map f (foldl (\<lambda>acc x. insort_lt lt key1 x acc) [] xs)
       = foldl (\<lambda>acc x. insort_lt lt key2 x acc) [] (map f xs)"
    using foldl_insort_lt_map [where acc = "[]" and xs = xs and ?key1.0 = key1 and ?key2.0 = key2
        and f = f and lt = lt] assms by simp
  have d: "map f (foldl (\<lambda>acc x. insort_lt lt key1 x acc) [] (rev xs))
       = foldl (\<lambda>acc x. insort_lt lt key2 x acc) [] (map f (rev xs))"
    using foldl_insort_lt_map [where acc = "[]" and xs = "rev xs" and ?key1.0 = key1
        and ?key2.0 = key2 and f = f and lt = lt] assms by simp
  show ?thesis
  proof (cases reverse)
    case True
    let ?F = "foldl (\<lambda>acc x. insort_lt lt key1 x acc) [] (rev xs)"
    have "map f (rev ?F) = rev (map f ?F)" by (rule rev_map [symmetric])
    also have "\<dots> = rev (foldl (\<lambda>acc x. insort_lt lt key2 x acc) [] (map f (rev xs)))"
      by (simp only: d)
    also have "map f (rev xs) = rev (map f xs)" by (rule rev_map [symmetric])
    finally show ?thesis using True by (simp only: list_sort_def if_True)
  next
    case False
    then show ?thesis using u by (simp only: list_sort_def if_False)
  qed
qed

lemma cell_present:
  assumes "col_key \<in> set COLUMNS" "length vals = 6"
  shows "\<exists>c. cell col_key vals = Inr c"
proof -
  have "length COLUMNS = length vals" using assms(2) by (simp add: COLUMNS_def)
  then obtain c where "map_of (zip COLUMNS vals) col_key = Some c"
    using assms(1) by (metis map_of_zip_is_Some)
  then show ?thesis by (simp add: cell_def lookup_err_def)
qed

lemma cells_present:
  assumes "\<forall>vals \<in> set rows. \<exists>c. cell col_key vals = Inr c"
  shows "\<exists>ps. cells col_key rows = Inr ps \<and> map snd ps = rows
           \<and> (\<forall>t \<in> set ps. cell col_key (snd t) = Inr (fst t))"
  using assms
proof (induction rows)
  case Nil
  then show ?case by simp
next
  case (Cons vals rows)
  obtain c where c: "cell col_key vals = Inr c" using Cons.prems by auto
  obtain ps where ps: "cells col_key rows = Inr ps" "map snd ps = rows"
      "\<forall>t \<in> set ps. cell col_key (snd t) = Inr (fst t)"
    using Cons by auto
  have "cells col_key (vals # rows) = Inr ((c, vals) # ps)"
    by (simp add: c ps(1) bind_err_def)
  then show ?case using c ps by auto
qed

text \<open>On rows of six cells, sorting by a numeric column sorts the rows by their key.\<close>

lemma sort_by_numeric_eq:
  assumes "col_key \<in> set numeric_cols" "\<forall>vals \<in> set (tree st). length vals = 6"
  shows "sort_by col_key descending st
       = Updated (st\<lparr>tree := list_sort flt (num_key col_key) descending (tree st)\<rparr>)"
proof -
  have col: "col_key \<in> set COLUMNS"
    using assms(1) by (auto simp: numeric_cols_def COLUMNS_def)
  have "\<forall>vals \<in> set (tree st). \<exists>c. cell col_key vals = Inr c"
    using assms(2) cell_present [OF col] by blast
  then obtain ps where ps: "cells col_key (tree st) = Inr ps" "map snd ps = tree st"
      "\<forall>t \<in> set ps. cell col_key (snd t) = Inr (fst t)"
    using cells_present by blast
  have k: "\<forall>t \<in> set ps. to_num (fst t) = num_key col_key (snd t)"
    using ps(3) by (simp add: num_key_def)
  have "map snd (list_sort flt (\<lambda>t. to_num (fst t)) descending ps)
      = list_sort flt (num_key col_key) descending (map snd ps)"
    using k by (rule list_sort_map)
  then show ?thesis
    using assms(1) by (simp add: sort_by_def ps(1,2))
qed

lemma fle_PInf: "b \<noteq> NaN \<Longrightarrow> fle PInf b \<Longrightarrow> b = PInf"
  by (cases b) auto

lemma unparsable_key:
  "cell col_key vals = Inr c \<Longrightarrow> float_of_str c = Inl e \<Longrightarrow> num_key col_key vals = PInf"
  by (simp add: num_key_def to_num_def)

text \<open>
  C7 (amended). For displayed rows of six cells none of whose cells in the column reads as
  NaN, sorting by a denomination column gives a permutation of the rows, ascending by the
  numeric value of the cell, or descending with the flag, and stable: the rows of equal
  value keep their order. A cell that does not read as a number counts as \<open>+inf\<close>: such rows
  are at the end when ascending (only rows of value \<open>+inf\<close> follow them) and at the front when
  descending (only rows of value \<open>+inf\<close> precede them).
\<close>

theorem sort_by_numeric_column:
  assumes "col_key \<in> set numeric_cols"
    and "\<forall>vals \<in> set (tree st). length vals = 6"
    and "\<forall>vals \<in> set (tree st). num_key col_key vals \<noteq> NaN"
  shows "\<exists>rows. sort_by col_key descending st = Updated (st\<lparr>tree := rows\<rparr>)
     \<and> mset rows = mset (tree st)
     \<and> (\<forall>k. filter (\<lambda>r. num_key col_key r = k) rows
              = filter (\<lambda>r. num_key col_key r = k) (tree st))
     \<and> (\<not> descending \<longrightarrow>
          sorted_wrt (\<lambda>a b. fle (num_key col_key a) (num_key col_key b)) rows
          \<and> (\<forall>i j. i < j \<and> j < length rows \<and> num_key col_key (rows ! i) = PInf
                 \<longrightarrow> num_key col_key (rows ! j) = PInf))
     \<and> (descending \<longrightarrow>
          sorted_wrt (\<lambda>a b. fge (num_key col_key a) (num_key col_key b)) rows
          \<and> (\<forall>i j. i < j \<and> j < length rows \<and> num_key col_key (rows ! j) = PInf
                 \<longrightarrow> num_key col_key (rows ! i) = PInf))
     \<and> (\<forall>vals c e. cell col_key vals = Inr c \<and> float_of_str c = Inl e
            \<longrightarrow> num_key col_key vals = PInf)"
proof -
  let ?key = "num_key col_key"
  define rows where "rows = list_sort flt ?key descending (tree st)"
  have eq: "sort_by col_key descending st = Updated (st\<lparr>tree := rows\<rparr>)"
    unfolding rows_def using assms(1,2) by (rule sort_by_numeric_eq)
  have m: "mset rows = mset (tree st)"
    unfolding rows_def using flt_asym flt_trans by (rule list_sort_props(1))
  have f: "filter (\<lambda>r. ?key r = k) rows = filter (\<lambda>r. ?key r = k) (tree st)" for k
    unfolding rows_def using flt_asym flt_trans by (rule list_sort_props(2))
  have "set rows = set (tree st)" using m by (metis set_mset_mset)
  then have nn: "\<forall>vals \<in> set rows. ?key vals \<noteq> NaN" using assms(3) by simp
  have up: "sorted_wrt (\<lambda>a b. fle (?key a) (?key b)) rows
      \<and> (\<forall>i j. i < j \<and> j < length rows \<and> ?key (rows ! i) = PInf \<longrightarrow> ?key (rows ! j) = PInf)"
    if "\<not> descending"
  proof -
    have "sorted_wrt (\<lambda>a b. \<not> flt (?key b) (?key a)) rows"
      unfolding rows_def using flt_asym flt_trans that by (rule list_sort_props(3))
    then have s: "sorted_wrt (\<lambda>a b. fle (?key a) (?key b)) rows"
    proof (rule sorted_wrt_mono_rel [rotated])
      fix a b assume "a \<in> set rows" "b \<in> set rows" "\<not> flt (?key b) (?key a)"
      then show "fle (?key a) (?key b)" using nn not_flt_iff_fle by blast
    qed
    have "?key (rows ! j) = PInf"
      if "i < j" "j < length rows" "?key (rows ! i) = PInf" for i j
    proof -
      have "fle (?key (rows ! i)) (?key (rows ! j))"
        using s that(1,2) by (simp add: sorted_wrt_iff_nth_less)
      moreover have "?key (rows ! j) \<noteq> NaN" using nn that(2) by simp
      ultimately show ?thesis using that(3) fle_PInf by simp
    qed
    then show ?thesis using s by blast
  qed
  have down: "sorted_wrt (\<lambda>a b. fge (?key a) (?key b)) rows
      \<and> (\<forall>i j. i < j \<and> j < length rows \<and> ?key (rows ! j) = PInf \<longrightarrow> ?key (rows ! i) = PInf)"
    if descending
  proof -
    have "sorted_wrt (\<lambda>a b. \<not> flt (?key a) (?key b)) rows"
      unfolding rows_def using flt_asym flt_trans that by (rule list_sort_props(4))
    then have s: "sorted_wrt (\<lambda>a b. fge (?key a) (?key b)) rows"
    proof (rule sorted_wrt_mono_rel [rotated])
      fix a b assume "a \<in> set rows" "b \<in> set rows" "\<not> flt (?key a) (?key b)"
      then show "fge (?key a) (?key b)" using nn not_flt_iff_fge by blast
    qed
    have "?key (rows ! i) = PInf"
      if "i < j" "j < length rows" "?key (rows ! j) = PInf" for i j
    proof -
      have "fge (?key (rows ! i)) (?key (rows ! j))"
        using s that(1,2) by (simp add: sorted_wrt_iff_nth_less)
      moreover have "?key (rows ! i) \<noteq> NaN" using nn that(1,2) by simp
      ultimately show ?thesis using that(3) fle_PInf by (simp add: fge_def)
    qed
    then show ?thesis using s by blast
  qed
  have un: "\<forall>vals c e. cell col_key vals = Inr c \<and> float_of_str c = Inl e \<longrightarrow> ?key vals = PInf"
    using unparsable_key by blast
  show ?thesis
    apply (rule exI [of _ rows])
    using eq m f up down un by blast
qed

lemma float_of_str_3: "float_of_str ''3'' = Inr (Fin 3)"
proof -
  have "round_double 3 = Fin 3" using round_double_int [of 3] by simp
  then show ?thesis by (simp add: float_of_str_eval)
qed

lemmas sort_by_eval =
  sort_by_def cell_def lookup_err_def COLUMNS_def numeric_cols_def bind_err_def
  list_sort_def to_num_def num_key_def

theorem sort_by_numeric_column_witness:
  "sort_by ''gp'' False
     (init_app\<lparr>tree := [[''B'', ''0.50'', ''5'', ''10'', ''50'', ''500''],
                        [''A'', ''0.50'', ''5'', ''10'', ''50'', ''500''],
                        [''C'', ''0.30'', ''3'', ''6'', ''30'', ''300'']]\<rparr>)
   = Updated
     (init_app\<lparr>tree := [[''C'', ''0.30'', ''3'', ''6'', ''30'', ''300''],
                        [''B'', ''0.50'', ''5'', ''10'', ''50'', ''500''],
                        [''A'', ''0.50'', ''5'', ''10'', ''50'', ''500'']]\<rparr>)
   \<and> sorted_wrt (\<lambda>a b. fle (num_key ''gp'' a) (num_key ''gp'' b))
        [[''C'', ''0.30'', ''3'', ''6'', ''30'', ''300''],
         [''B'', ''0.50'', ''5'', ''10'', ''50'', ''500''],
         [''A'', ''0.50'', ''5'', ''10'', ''50'', ''500'']]"
proof -
  let ?B = "[''B'', ''0.50'', ''5'', ''10'', ''50'', ''500'']"
  let ?A = "[''A'', ''0.50'', ''5'', ''10'', ''50'', ''500'']"
  let ?C = "[''C'', ''0.30'', ''3'', ''6'', ''30'', ''300'']"
  let ?st = "init_app\<lparr>tree := [?B, ?A, ?C]\<rparr>"
  have k: "num_key ''gp'' ?B = Fin 5" "num_key ''gp'' ?A = Fin 5" "num_key ''gp'' ?C = Fin 3"
    by (simp_all add: sort_by_eval float_of_str_5 float_of_str_3)
  have h1: "''gp'' \<in> set numeric_cols" by (simp add: numeric_cols_def)
  have h2: "\<forall>vals \<in> set (tree ?st). length vals = 6" by simp
  have h3: "\<forall>vals \<in> set (tree ?st). num_key ''gp'' vals \<noteq> NaN" using k by simp
  have ev: "sort_by ''gp'' False ?st = Updated (init_app\<lparr>tree := [?C, ?B, ?A]\<rparr>)"
    by (simp add: sort_by_eval float_of_str_5 float_of_str_3)
  obtain rows where r: "sort_by ''gp'' False ?st = Updated (?st\<lparr>tree := rows\<rparr>)"
    and s: "sorted_wrt (\<lambda>a b. fle (num_key ''gp'' a) (num_key ''gp'' b)) rows"
    using sort_by_numeric_column [OF h1 h2 h3, of False] by blast
  have "tree (?st\<lparr>tree := rows\<rparr>) = tree (init_app\<lparr>tree := [?C, ?B, ?A]\<rparr>)"
    using r ev by simp
  then have "rows = [?C, ?B, ?A]" by simp
  then show ?thesis using ev s by simp
qed

text \<open>
  C7 as stated fails for the descending order: the row whose cell does not read as a
  number comes first, not last.
\<close>

theorem sort_descending_unparsable_first_counterexample:
  "sort_by ''gp'' True
     (init_app\<lparr>tree := [[''A'', ''0.50'', ''5'', ''10'', ''50'', ''500''],
                        [''B'', ''x'', ''x'', ''x'', ''x'', ''x'']]\<rparr>)
   = Updated
     (init_app\<lparr>tree := [[''B'', ''x'', ''x'', ''x'', ''x'', ''x''],
                        [''A'', ''0.50'', ''5'', ''10'', ''50'', ''500'']]\<rparr>)
   \<and> float_of_str ''x'' = Inl ValueError \<and> float_of_str ''5'' = Inr (Fin 5)"
  by (simp add: sort_by_eval float_of_str_5 float_of_str_x)

section \<open>Properties of the merge of all sources\<close>

lemma update_fresh: "k \<notin> fst ` set al \<Longrightarrow> AList.update k v al = al @ [(k, v)]"
  by (induction al) auto

lemma build_index_foldl:
  assumes "distinct (map (\<lambda>p. fst (splitext (basename p))) paths)"
    and "\<forall>p \<in> set paths. fst (splitext (basename p)) \<notin> fst ` set idx"
  shows "foldl (\<lambda>idx p. AList.update (fst (splitext (basename p))) p idx) idx paths
       = idx @ map (\<lambda>p. (fst (splitext (basename p)), p)) paths"
  using assms
proof (induction paths arbitrary: idx)
  case Nil
  then show ?case by simp
next
  case (Cons p paths)
  let ?d = "\<lambda>p. fst (splitext (basename p))"
  have u: "AList.update (?d p) p idx = idx @ [(?d p, p)]"
    using Cons.prems(2) by (intro update_fresh) simp
  have a: "distinct (map ?d paths)" using Cons.prems(1) by simp
  have b: "\<forall>q \<in> set paths. ?d q \<notin> fst ` set (idx @ [(?d p, p)])"
  proof
    fix q assume q: "q \<in> set paths"
    have "?d p \<notin> ?d ` set paths" using Cons.prems(1) by simp
    then have "?d q \<noteq> ?d p" using q by (metis imageI)
    moreover have "?d q \<notin> fst ` set idx" using Cons.prems(2) q by simp
    ultimately show "?d q \<notin> fst ` set (idx @ [(?d p, p)])" by simp
  qed
  show ?case using Cons.IH [OF a b] by (simp add: u)
qed

text \<open>
  When no two source files have the same name without extension, the index lists the
  sources in sorted order and "All files" is the merge of all sources.
\<close>

lemma all_files_merge_when_distinct:
  assumes "distinct (map (\<lambda>p. fst (splitext (basename p))) (list_json_files folder))"
    and "st' = refresh_file_list folder (Some ''All files'') st"
  shows "items (load_items_for_selection json_loads folder st') = merge_all_sources json_loads folder"
proof -
  let ?paths = "list_json_files folder"
  have idx: "build_index ?paths = map (\<lambda>p. (fst (splitext (basename p)), p)) ?paths"
    unfolding build_index_def using build_index_foldl [OF assms(1), of "[]"] by simp
  have fi: "file_index st' = map (\<lambda>p. (fst (splitext (basename p)), p)) ?paths"
    and fv: "file_var st' = ''All files''"
    unfolding assms(2) refresh_file_list_def Let_def by (simp_all add: idx)
  have "foldl (\<lambda>merged (_, path).
                  case load_prices_json json_loads (map_of folder path) of
                    Inr data \<Rightarrow> dict_update merged data | Inl _ \<Rightarrow> merged)
          acc (map (\<lambda>p. (fst (splitext (basename p)), p)) paths)
      = foldl (\<lambda>merged path.
                  case load_prices_json json_loads (map_of folder path) of
                    Inr data \<Rightarrow> dict_update merged data | Inl _ \<Rightarrow> merged)
          acc paths" for acc paths
    by (induction paths arbitrary: acc) simp_all
  then show ?thesis
    by (simp add: load_items_for_selection_def Let_def fi fv merge_all_sources_def)
qed

text \<open>
  C6. The folder holds \<open>a.JSON\<close> (defining \<open>X\<close>) and \<open>a.json\<close> (defining \<open>Y\<close>). Both are source files,
  and the merge of all sources in sorted order has \<open>X\<close> and \<open>Y\<close>. The index of the
  application is keyed by the name without extension, \<open>a\<close> for both, so it holds one of the
  two files and "All files" loads only \<open>Y\<close>.
\<close>

theorem all_files_drops_source_with_same_display_name:
  "list_json_files [(''a.json'', Readable ''B''), (''a.JSON'', Readable ''A'')]
     = [''a.JSON'', ''a.json'']
   \<and> merge_all_sources
       (\<lambda>s. if s = ''A'' then Inr (JDict [(Some ''X'', JInt 1)])
            else if s = ''B'' then Inr (JDict [(Some ''Y'', JInt 2)]) else Inl JSONDecodeError)
       [(''a.json'', Readable ''B''), (''a.JSON'', Readable ''A'')]
     = [(''X'', Fin 1), (''Y'', Fin 2)]
   \<and> items (load_items_for_selection
       (\<lambda>s. if s = ''A'' then Inr (JDict [(Some ''X'', JInt 1)])
            else if s = ''B'' then Inr (JDict [(Some ''Y'', JInt 2)]) else Inl JSONDecodeError)
       [(''a.json'', Readable ''B''), (''a.JSON'', Readable ''A'')]
       (refresh_file_list [(''a.json'', Readable ''B''), (''a.JSON'', Readable ''A'')]
          (Some ''All files'') init_app))
     = [(''Y'', Fin 2)]"
proof -
  let ?F = "[(''a.json'', Readable ''B''), (''a.JSON'', Readable ''A'')]"
  let ?L = "\<lambda>s. if s = ''A'' then Inr (JDict [(Some ''X'', JInt 1)])
            else if s = ''B'' then Inr (JDict [(Some ''Y'', JInt 2)]) else Inl JSONDecodeError"
  have l: "list_json_files ?F = [''a.JSON'', ''a.json'']"
    by (simp add: list_json_files_def endswith_def lower_def lower_char_def)
  have la: "load_prices_json ?L (Some (Readable ''A'')) = Inr [(''X'', Fin 1)]"
    by (simp add: load_prices_json_def clean_prices_def round_double_small_ints
        strip_def isspace_def)
  have lb: "load_prices_json ?L (Some (Readable ''B'')) = Inr [(''Y'', Fin 2)]"
    by (simp add: load_prices_json_def clean_prices_def round_double_2_15
        strip_def isspace_def)
  have m: "merge_all_sources ?L ?F = [(''X'', Fin 1), (''Y'', Fin 2)]"
    unfolding merge_all_sources_def l by (simp add: la lb dict_update_def)
  have b: "build_index [''a.JSON'', ''a.json''] = [(''a'', ''a.json'')]"
    by (simp add: build_index_def basename_def splitext_def rfind_def slice_def)
  have fi: "file_index (refresh_file_list ?F (Some ''All files'') init_app) = [(''a'', ''a.json'')]"
    and fv: "file_var (refresh_file_list ?F (Some ''All files'') init_app) = ''All files''"
    unfolding refresh_file_list_def Let_def l b by simp_all
  have i: "items (load_items_for_selection ?L ?F
             (refresh_file_list ?F (Some ''All files'') init_app)) = [(''Y'', Fin 2)]"
    unfolding load_items_for_selection_def Let_def fi fv
    by (simp add: lb dict_update_def)
  show ?thesis using l m i by simp
qed

section \<open>Properties of the conversion round trip\<close>

lemma lit_0_1: "round_double (1 / 10) = Fin (3602879701896397 / 2 ^ 55)"
proof -
  have "round_double (1 / 10) = Fin (of_int 7205759403792794 * 2 powr of_int (- 56))"
  proof (rule round_double_eval [where k = "- 4"])
    show "2 powr real_of_int (- 4) \<le> \<bar>1 / 10 :: real\<bar>" by (simp add: powr_minus powr_numeral)
    show "\<bar>1 / 10 :: real\<bar> < 2 powr real_of_int (- 4 + 1)" by (simp add: powr_minus powr_numeral)
    show "- 56 = max (- 4 - 52) (- 1074 :: int)" by simp
    show "7205759403792794 = round_half_even (1 / 10 / 2 powr real_of_int (- 56))"
      by (simp add: powr_minus round_half_even_def powr_numeral)
    show "\<bar>real_of_int 7205759403792794 * 2 powr real_of_int (- 56)\<bar> < 2 ^ 1024"
      by (simp add: powr_minus powr_numeral)
  qed
  then show ?thesis by (simp add: powr_minus powr_numeral)
qed

lemma lit_0_01: "round_double (1 / 100) = Fin (5764607523034235 / 2 ^ 59)"
proof -
  have "round_double (1 / 100) = Fin (of_int 5764607523034235 * 2 powr of_int (- 59))"
  proof (rule round_double_eval [where k = "- 7"])
    show "2 powr real_of_int (- 7) \<le> \<bar>1 / 100 :: real\<bar>" by (simp add: powr_minus powr_numeral)
    show "\<bar>1 / 100 :: real\<bar> < 2 powr real_of_int (- 7 + 1)" by (simp add: powr_minus powr_numeral)
    show "- 59 = max (- 7 - 52) (- 1074 :: int)" by simp
    show "5764607523034235 = round_half_even (1 / 100 / 2 powr real_of_int (- 59))"
      by (simp add: powr_minus round_half_even_def powr_numeral)
    show "\<bar>real_of_int 5764607523034235 * 2 powr real_of_int (- 59)\<bar> < 2 ^ 1024"
      by (simp add: powr_minus powr_numeral)
  qed
  then show ?thesis by (simp add: powr_minus powr_numeral)
qed

text \<open>The rates of the table, as real numbers.\<close>

lemma unit_rate_cases:
  assumes "unit \<in> set UNITS"
  obtains r where "unit_rate unit = Inr (Fin r)" "1 / 128 \<le> r" "r \<le> 16"
proof -
  have "unit = ''pp'' \<or> unit = ''gp'' \<or> unit = ''ep'' \<or> unit = ''sp'' \<or> unit = ''cp''"
    using assms by (simp add: UNITS_def)
  then show ?thesis
  proof (elim disjE)
    assume "unit = ''pp''"
    then have "unit_rate unit = Inr (Fin 10)" by (simp add: unit_rate_def UNIT_TO_GP_def)
    then show ?thesis by (rule that) simp_all
  next
    assume "unit = ''gp''"
    then have "unit_rate unit = Inr (Fin 1)" by (simp add: unit_rate_def UNIT_TO_GP_def)
    then show ?thesis by (rule that) simp_all
  next
    assume "unit = ''ep''"
    then have "unit_rate unit = Inr (Fin (1 / 2))" by (simp add: unit_rate_def UNIT_TO_GP_def)
    then show ?thesis by (rule that) simp_all
  next
    assume "unit = ''sp''"
    then have "unit_rate unit = Inr (Fin (3602879701896397 / 2 ^ 55))"
      by (simp add: unit_rate_def UNIT_TO_GP_def lit_0_1)
    then show ?thesis by (rule that) simp_all
  next
    assume "unit = ''cp''"
    then have "unit_rate unit = Inr (Fin (5764607523034235 / 2 ^ 59))"
      by (simp add: unit_rate_def UNIT_TO_GP_def lit_0_01)
    then show ?thesis by (rule that) simp_all
  qed
qed

text \<open>
  The error of one rounding: half a unit in the last place, that is a \<open>2\<^sup>-\<^sup>5\<^sup>3\<close>th of the value in
  the normal range and \<open>2\<^sup>-\<^sup>1\<^sup>0\<^sup>7\<^sup>5\<close> in the subnormal range. Below \<open>2\<^sup>1\<^sup>0\<^sup>2\<^sup>3\<close> nothing overflows.
\<close>

lemma round_double_error:
  fixes x :: real
  assumes "\<bar>x\<bar> < 2 ^ 1023"
  shows "\<exists>y. round_double x = Fin y \<and> \<bar>y - x\<bar> \<le> \<bar>x\<bar> / 2 ^ 53 + 1 / 2 ^ 1075"
proof (cases "x = 0")
  case True
  then show ?thesis by (simp add: round_double_def)
next
  case False
  define L where "L = \<lfloor>log 2 \<bar>x\<bar>\<rfloor>"
  define e where "e = double_exp x"
  define s where "s = (2::real) powr of_int e"
  define m where "m = round_half_even (x / s)"
  define y where "y = real_of_int m * s"
  have spos: "0 < s" unfolding s_def by simp
  have xpos: "0 < \<bar>x\<bar>" using False by simp
  have e_max: "e = max (L - 52) (- 1074)" unfolding e_def double_exp_def L_def ..
  have "\<bar>x / s - real_of_int m\<bar> \<le> 1 / 2"
    unfolding m_def by (rule round_half_even_dist)
  then have "s * \<bar>x / s - real_of_int m\<bar> \<le> s * (1 / 2)"
    using spos by (intro mult_left_mono) simp_all
  moreover have "s * \<bar>x / s - real_of_int m\<bar> = \<bar>y - x\<bar>"
  proof -
    have "s * \<bar>x / s - real_of_int m\<bar> = \<bar>s * (x / s - real_of_int m)\<bar>"
      using spos by (simp add: abs_mult)
    also have "s * (x / s - real_of_int m) = x - y"
      using spos by (simp add: y_def field_simps)
    finally show ?thesis by (simp add: abs_minus_commute)
  qed
  ultimately have err: "\<bar>y - x\<bar> \<le> s / 2" by simp
  have "real_of_int L \<le> log 2 \<bar>x\<bar>" unfolding L_def by simp
  then have Lx: "2 powr real_of_int L \<le> \<bar>x\<bar>" using xpos by (simp add: le_log_iff)
  have sb: "s / 2 \<le> \<bar>x\<bar> / 2 ^ 53 + 1 / 2 ^ 1075"
  proof (cases "L - 52 \<le> - 1074")
    case True
    then have "e = - 1074" using e_max by simp
    then have "s = 1 / 2 ^ 1074" unfolding s_def by (simp add: powr_minus powr_numeral field_simps)
    then have "s / 2 = 1 / 2 ^ 1075" by simp
    moreover have "0 \<le> \<bar>x\<bar> / 2 ^ 53" by simp
    ultimately show ?thesis by linarith
  next
    case False
    then have "e = L - 52" using e_max by simp
    then have "s = 2 powr (real_of_int L - 52)" unfolding s_def by simp
    also have "\<dots> = 2 powr real_of_int L / 2 powr 52" by (rule powr_diff)
    also have "\<dots> = 2 powr real_of_int L / 2 ^ 52" by (simp add: powr_numeral)
    finally have "s = 2 powr real_of_int L / 2 ^ 52" .
    then have "s / 2 = 2 powr real_of_int L / 2 ^ 53" by simp
    also have "\<dots> \<le> \<bar>x\<bar> / 2 ^ 53" using Lx by (simp add: divide_right_mono)
    finally have "s / 2 \<le> \<bar>x\<bar> / 2 ^ 53" .
    moreover have "(0::real) \<le> 1 / 2 ^ 1075" by simp
    ultimately show ?thesis by linarith
  qed
  have bound: "\<bar>y - x\<bar> \<le> \<bar>x\<bar> / 2 ^ 53 + 1 / 2 ^ 1075" using err sb by linarith
  have "\<bar>x\<bar> / 2 ^ 53 \<le> \<bar>x\<bar> / 2"
    by (intro divide_left_mono) simp_all
  moreover have "(1::real) / 2 ^ 1075 \<le> 1" by simp
  moreover have "(1::real) \<le> 2 ^ 1023 / 2" by simp
  moreover have "\<bar>x\<bar> / 2 < 2 ^ 1023 / 2" using assms by simp
  ultimately have "\<bar>y - x\<bar> < 2 ^ 1023" using bound by linarith
  then have "\<bar>y\<bar> < 2 ^ 1023 + 2 ^ 1023" using assms by linarith
  then have "\<bar>y\<bar> < 2 ^ 1024" by simp
  then have no: "\<not> (2 ^ 1024 \<le> \<bar>real_of_int (round_half_even (x / 2 powr real_of_int (double_exp x)))
       * 2 powr real_of_int (double_exp x)\<bar>)"
    unfolding y_def m_def s_def e_def by (simp only: not_le)
  have "round_double x = Fin y"
    unfolding round_double_def Let_def y_def m_def s_def e_def
    using False no by (simp only: if_False)
  then show ?thesis using bound by blast
qed

lemma two_roundings:
  fixes p r :: real
  assumes "0 \<le> p" "p < 2 ^ 1000" "1 / 128 \<le> r" "r \<le> 16"
  shows "\<exists>y1 q. round_double (p / r) = Fin y1 \<and> round_double (y1 * r) = Fin q
           \<and> \<bar>q - p\<bar> \<le> p / 2 ^ 51 + 1 / 2 ^ 1000"
proof -
  define t where "t = (1::real) / 2 ^ 1075"
  define a where "a = p / 2 ^ 53"
  have rpos: "0 < r" using assms(3) by linarith
  have t0: "0 \<le> t" and t1: "16 * t \<le> 1" and t33: "33 * t \<le> 1 / 2 ^ 1000"
    unfolding t_def by simp_all
  have a0: "0 \<le> a" and ap: "a \<le> p" and a4: "4 * a = p / 2 ^ 51"
    unfolding a_def using assms(1) by (simp_all add: field_simps)
  have big: "(2::real) ^ 1000 * 128 \<le> 2 ^ 1023" "(2::real) ^ 1000 + 2 ^ 1000 + 1 \<le> 2 ^ 1023"
    by simp_all
  have pr0: "0 \<le> p / r" using assms(1) rpos by simp
  have "p / r \<le> p * 128"
  proof -
    have "p \<le> p * 128 * r"
    proof -
      have "p * 1 \<le> p * (128 * r)" using assms(1,3) by (intro mult_left_mono) simp_all
      then show ?thesis by (simp add: mult.assoc)
    qed
    then show ?thesis using rpos by (simp add: pos_divide_le_eq)
  qed
  also have "\<dots> < 2 ^ 1000 * 128" using assms(2) by simp
  finally have "\<bar>p / r\<bar> < 2 ^ 1023" using pr0 big(1) by linarith
  then obtain y1 where y1: "round_double (p / r) = Fin y1"
    and e1: "\<bar>y1 - p / r\<bar> \<le> \<bar>p / r\<bar> / 2 ^ 53 + 1 / 2 ^ 1075"
    using round_double_error by blast
  have "r * \<bar>y1 - p / r\<bar> \<le> r * (\<bar>p / r\<bar> / 2 ^ 53 + 1 / 2 ^ 1075)"
    using e1 rpos by (intro mult_left_mono) simp_all
  moreover have "r * \<bar>y1 - p / r\<bar> = \<bar>y1 * r - p\<bar>"
  proof -
    have "r * \<bar>y1 - p / r\<bar> = \<bar>r * (y1 - p / r)\<bar>" using rpos by (simp add: abs_mult)
    also have "r * (y1 - p / r) = y1 * r - p" using rpos by (simp add: field_simps)
    finally show ?thesis .
  qed
  moreover have "r * (\<bar>p / r\<bar> / 2 ^ 53 + 1 / 2 ^ 1075) = a + r * t"
    unfolding a_def t_def using rpos pr0 by (simp add: field_simps)
  ultimately have d1: "\<bar>y1 * r - p\<bar> \<le> a + r * t" by simp
  have rt: "r * t \<le> 16 * t" using assms(4) t0 by (intro mult_right_mono) simp_all
  have y1r: "\<bar>y1 * r\<bar> \<le> p + a + r * t" using d1 assms(1) by linarith
  then have "\<bar>y1 * r\<bar> < 2 ^ 1023" using ap rt t1 assms(2) big(2) by linarith
  then obtain q where q: "round_double (y1 * r) = Fin q"
    and e2: "\<bar>q - y1 * r\<bar> \<le> \<bar>y1 * r\<bar> / 2 ^ 53 + 1 / 2 ^ 1075"
    using round_double_error by blast
  have "\<bar>y1 * r\<bar> / 2 ^ 53 \<le> (p + a + r * t) / 2 ^ 53"
    using y1r by (simp add: divide_right_mono)
  also have "\<dots> = a + a / 2 ^ 53 + r * t / 2 ^ 53"
    unfolding a_def by (simp add: add_divide_distrib)
  also have "\<dots> \<le> a + a + r * t"
  proof -
    have "a / 2 ^ 53 \<le> a" using a0 by (simp add: field_simps)
    moreover have "r * t / 2 ^ 53 \<le> r * t" using rpos t0 by (simp add: field_simps)
    ultimately show ?thesis by linarith
  qed
  finally have d2: "\<bar>q - y1 * r\<bar> \<le> a + a + r * t + t" using e2 unfolding t_def by linarith
  have "\<bar>q - p\<bar> \<le> \<bar>q - y1 * r\<bar> + \<bar>y1 * r - p\<bar>" by linarith
  then have "\<bar>q - p\<bar> \<le> 3 * a + 2 * (r * t) + t" using d1 d2 by linarith
  then have "\<bar>q - p\<bar> \<le> 4 * a + 33 * t" using rt a0 by linarith
  then have "\<bar>q - p\<bar> \<le> p / 2 ^ 51 + 1 / 2 ^ 1000" using a4 t33 by linarith
  then show ?thesis using y1 q by blast
qed

lemma round_trip_gp: "round_trip (Fin p) ''gp'' = Inr (round_double p)"
  by (simp add: round_trip_def from_gp_def unit_rate_def UNIT_TO_GP_def lit_0_1 lit_0_01
      bind_err_def lookup_err_def to_gp_def)

lemma round_trip_other:
  assumes "unit \<in> set UNITS" "unit \<noteq> ''gp''" "unit_rate unit = Inr (Fin r)"
  shows "round_trip (Fin p) unit = Inr (fmul (round_double (p / r)) (Fin r))"
proof -
  have "unit = ''pp'' \<or> unit = ''ep'' \<or> unit = ''sp'' \<or> unit = ''cp''"
    using assms(1,2) by (simp add: UNITS_def)
  then show ?thesis
  proof (elim disjE)
    assume u: "unit = ''pp''"
    then have rv: "r = 10" using assms(3) by (simp add: unit_rate_def UNIT_TO_GP_def)
    show ?thesis unfolding rv
      by (simp add: u round_trip_def from_gp_def unit_rate_def UNIT_TO_GP_def lit_0_1 lit_0_01
          bind_err_def lookup_err_def to_gp_def)
  next
    assume u: "unit = ''ep''"
    then have rv: "r = 1 / 2" using assms(3) by (simp add: unit_rate_def UNIT_TO_GP_def)
    show ?thesis unfolding rv
      by (simp add: u round_trip_def from_gp_def unit_rate_def UNIT_TO_GP_def lit_0_1 lit_0_01
          bind_err_def lookup_err_def to_gp_def)
  next
    assume u: "unit = ''sp''"
    then have rv: "r = 3602879701896397 / 2 ^ 55"
      using assms(3) by (simp add: unit_rate_def UNIT_TO_GP_def lit_0_1)
    show ?thesis unfolding rv
      by (simp add: u round_trip_def from_gp_def unit_rate_def UNIT_TO_GP_def lit_0_1 lit_0_01
          bind_err_def lookup_err_def to_gp_def)
  next
    assume u: "unit = ''cp''"
    then have rv: "r = 5764607523034235 / 2 ^ 59"
      using assms(3) by (simp add: unit_rate_def UNIT_TO_GP_def lit_0_01)
    show ?thesis unfolding rv
      by (simp add: u round_trip_def from_gp_def unit_rate_def UNIT_TO_GP_def lit_0_1 lit_0_01
          bind_err_def lookup_err_def to_gp_def)
  qed
qed

text \<open>
  C2 (amended). For every denomination and every finite price \<open>0 \<le> p < 2\<^sup>1\<^sup>0\<^sup>0\<^sup>0\<close> the round trip
  is a finite float within \<open>p \<cdot> 2\<^sup>-\<^sup>5\<^sup>1 + 2\<^sup>-\<^sup>1\<^sup>0\<^sup>0\<^sup>0\<close> of \<open>p\<close>: the error of the two roundings is
  relative to \<open>p\<close>. It is within \<open>10\<^sup>-\<^sup>9\<close> of \<open>p\<close> for every price up to \<open>10\<^sup>6\<close>.
\<close>

theorem round_trip_error_bound:
  assumes "unit \<in> set UNITS" "0 \<le> p" "p < 2 ^ 1000"
  shows "\<exists>q. round_trip (Fin p) unit = Inr (Fin q)
           \<and> \<bar>q - p\<bar> \<le> p / 2 ^ 51 + 1 / 2 ^ 1000
           \<and> (p \<le> 10 ^ 6 \<longrightarrow> \<bar>q - p\<bar> \<le> 1 / 10 ^ 9)"
proof -
  have small: "\<bar>q - p\<bar> \<le> 1 / 10 ^ 9"
    if "\<bar>q - p\<bar> \<le> p / 2 ^ 51 + 1 / 2 ^ 1000" "p \<le> 10 ^ 6" for q
  proof -
    have "p / 2 ^ 51 \<le> 10 ^ 6 / 2 ^ 51" using that(2) by (simp add: divide_right_mono)
    moreover have "(10::real) ^ 6 / 2 ^ 51 + 1 / 2 ^ 1000 \<le> 1 / 10 ^ 9" by simp
    ultimately show ?thesis using that(1) by linarith
  qed
  have "\<exists>q. round_trip (Fin p) unit = Inr (Fin q) \<and> \<bar>q - p\<bar> \<le> p / 2 ^ 51 + 1 / 2 ^ 1000"
  proof (cases "unit = ''gp''")
    case True
    have "(2::real) ^ 1000 \<le> 2 ^ 1023" by simp
    then have "\<bar>p\<bar> < 2 ^ 1023" using assms(2,3) by linarith
    then obtain q where q: "round_double p = Fin q"
      and e: "\<bar>q - p\<bar> \<le> \<bar>p\<bar> / 2 ^ 53 + 1 / 2 ^ 1075"
      using round_double_error by blast
    have "\<bar>p\<bar> / 2 ^ 53 \<le> p / 2 ^ 51" using assms(2) by (simp add: field_simps)
    moreover have "(1::real) / 2 ^ 1075 \<le> 1 / 2 ^ 1000" by simp
    ultimately have "\<bar>q - p\<bar> \<le> p / 2 ^ 51 + 1 / 2 ^ 1000" using e by linarith
    then show ?thesis using q True round_trip_gp by auto
  next
    case False
    obtain r where r: "unit_rate unit = Inr (Fin r)" "1 / 128 \<le> r" "r \<le> 16"
      using assms(1) by (rule unit_rate_cases)
    obtain y1 q where y: "round_double (p / r) = Fin y1" "round_double (y1 * r) = Fin q"
      and e: "\<bar>q - p\<bar> \<le> p / 2 ^ 51 + 1 / 2 ^ 1000"
      using two_roundings [OF assms(2,3) r(2,3)] by blast
    have "round_trip (Fin p) unit = Inr (Fin q)"
      using round_trip_other [OF assms(1) False r(1), of p] y by simp
    then show ?thesis using e by blast
  qed
  then show ?thesis using small by blast
qed

theorem round_trip_error_bound_witness:
  "\<exists>q. round_trip (Fin 2) ''sp'' = Inr (Fin q) \<and> \<bar>q - 2\<bar> \<le> 1 / 10 ^ 9"
proof -
  have u: "''sp'' \<in> set UNITS" by (simp add: UNITS_def)
  have a: "(0::real) \<le> 2" "(2::real) < 2 ^ 1000" by simp_all
  have b: "(2::real) \<le> 10 ^ 6" by simp
  show ?thesis using round_trip_error_bound [OF u a] b by blast
qed

lemma price_is_double:
  "round_double (7733001608085657 / 2 ^ 28) = Fin (7733001608085657 / 2 ^ 28)"
proof -
  have "round_double (7733001608085657 / 2 ^ 28)
      = Fin (of_int 7733001608085657 * 2 powr of_int (- 28))"
  proof (rule round_double_eval [where k = 24])
    show "2 powr real_of_int 24 \<le> \<bar>7733001608085657 / 2 ^ 28 :: real\<bar>"
      by (simp add: powr_numeral)
    show "\<bar>7733001608085657 / 2 ^ 28 :: real\<bar> < 2 powr real_of_int (24 + 1)"
      by (simp add: powr_numeral)
    show "- 28 = max (24 - 52) (- 1074 :: int)" by simp
    show "7733001608085657
        = round_half_even (7733001608085657 / 2 ^ 28 / 2 powr real_of_int (- 28))"
      by (simp add: powr_minus round_half_even_def powr_numeral)
    show "\<bar>real_of_int 7733001608085657 * 2 powr real_of_int (- 28)\<bar> < 2 ^ 1024"
      by (simp add: powr_minus powr_numeral)
  qed
  then show ?thesis by (simp add: powr_minus powr_numeral)
qed

lemma price_in_cp:
  "round_double (7733001608085657 / 2 ^ 28 / (5764607523034235 / 2 ^ 59))
   = Fin (6041407506316919 / 2 ^ 21)"
proof -
  have "round_double (7733001608085657 / 2 ^ 28 / (5764607523034235 / 2 ^ 59))
      = Fin (of_int 6041407506316919 * 2 powr of_int (- 21))"
  proof (rule round_double_eval [where k = 31])
    show "2 powr real_of_int 31
        \<le> \<bar>7733001608085657 / 2 ^ 28 / (5764607523034235 / 2 ^ 59) :: real\<bar>"
      by (simp add: powr_numeral)
    show "\<bar>7733001608085657 / 2 ^ 28 / (5764607523034235 / 2 ^ 59) :: real\<bar>
        < 2 powr real_of_int (31 + 1)"
      by (simp add: powr_numeral)
    show "- 21 = max (31 - 52) (- 1074 :: int)" by simp
    show "6041407506316919
        = round_half_even (7733001608085657 / 2 ^ 28 / (5764607523034235 / 2 ^ 59)
            / 2 powr real_of_int (- 21))"
      by (simp add: powr_minus round_half_even_def powr_numeral)
    show "\<bar>real_of_int 6041407506316919 * 2 powr real_of_int (- 21)\<bar> < 2 ^ 1024"
      by (simp add: powr_minus powr_numeral)
  qed
  then show ?thesis by (simp add: powr_minus powr_numeral)
qed

lemma price_back_in_gp:
  "round_double (6041407506316919 / 2 ^ 21 * (5764607523034235 / 2 ^ 59))
   = Fin (7733001608085656 / 2 ^ 28)"
proof -
  have "round_double (6041407506316919 / 2 ^ 21 * (5764607523034235 / 2 ^ 59))
      = Fin (of_int 7733001608085656 * 2 powr of_int (- 28))"
  proof (rule round_double_eval [where k = 24])
    show "2 powr real_of_int 24
        \<le> \<bar>6041407506316919 / 2 ^ 21 * (5764607523034235 / 2 ^ 59) :: real\<bar>"
      by (simp add: powr_numeral)
    show "\<bar>6041407506316919 / 2 ^ 21 * (5764607523034235 / 2 ^ 59) :: real\<bar>
        < 2 powr real_of_int (24 + 1)"
      by (simp add: powr_numeral)
    show "- 28 = max (24 - 52) (- 1074 :: int)" by simp
    show "7733001608085656
        = round_half_even (6041407506316919 / 2 ^ 21 * (5764607523034235 / 2 ^ 59)
            / 2 powr real_of_int (- 28))"
      by (simp add: powr_minus round_half_even_def powr_numeral)
    show "\<bar>real_of_int 7733001608085656 * 2 powr real_of_int (- 28)\<bar> < 2 ^ 1024"
      by (simp add: powr_minus powr_numeral)
  qed
  then show ?thesis by (simp add: powr_minus powr_numeral)
qed

text \<open>
  C2 as stated fails for large prices. The price \<open>7733001608085657 / 2\<^sup>2\<^sup>8\<close> gp (about
  28.8 million) is a binary64 value; its round trip through cp returns the neighbouring
  float, \<open>2\<^sup>-\<^sup>2\<^sup>8\<close> (about \<open>3.7e-9\<close>) away.
\<close>

theorem round_trip_exceeds_tolerance_counterexample:
  "round_double (7733001608085657 / 2 ^ 28) = Fin (7733001608085657 / 2 ^ 28)
   \<and> round_trip (Fin (7733001608085657 / 2 ^ 28)) ''cp'' = Inr (Fin (7733001608085656 / 2 ^ 28))
   \<and> \<not> \<bar>7733001608085656 / 2 ^ 28 - 7733001608085657 / 2 ^ 28\<bar> \<le> (1 :: real) / 10 ^ 9"
proof -
  have u: "''cp'' \<in> set UNITS" "''cp'' \<noteq> ''gp''" by (simp_all add: UNITS_def)
  have r: "unit_rate ''cp'' = Inr (Fin (5764607523034235 / 2 ^ 59))"
    by (simp add: unit_rate_def UNIT_TO_GP_def lit_0_01)
  have "round_trip (Fin (7733001608085657 / 2 ^ 28)) ''cp''
      = Inr (fmul (round_double (7733001608085657 / 2 ^ 28 / (5764607523034235 / 2 ^ 59)))
                  (Fin (5764607523034235 / 2 ^ 59)))"
    using u r by (rule round_trip_other)
  also have "\<dots> = Inr (round_double (6041407506316919 / 2 ^ 21 * (5764607523034235 / 2 ^ 59)))"
    by (simp only: price_in_cp fmul.simps)
  also have "\<dots> = Inr (Fin (7733001608085656 / 2 ^ 28))"
    by (simp only: price_back_in_gp)
  finally have t: "round_trip (Fin (7733001608085657 / 2 ^ 28)) ''cp''
      = Inr (Fin (7733001608085656 / 2 ^ 28))" .
  have d: "\<not> \<bar>7733001608085656 / 2 ^ 28 - 7733001608085657 / 2 ^ 28\<bar> \<le> (1 :: real) / 10 ^ 9"
    by simp
  show ?thesis using price_is_double t d by (intro conjI)
qed

text \<open>Near the largest floats the conversion to cp overflows, and the round trip is infinite.\<close>

lemma round_trip_overflow: "round_trip (Fin (2 ^ 1023)) ''cp'' = Inr PInf"
proof -
  have u: "''cp'' \<in> set UNITS" "''cp'' \<noteq> ''gp''" by (simp_all add: UNITS_def)
  have r: "unit_rate ''cp'' = Inr (Fin (5764607523034235 / 2 ^ 59))"
    by (simp add: unit_rate_def UNIT_TO_GP_def lit_0_01)
  have "(2::real) ^ 1024 \<le> 2 ^ 1023 / (5764607523034235 / 2 ^ 59)" by simp
  then have o: "round_double (2 ^ 1023 / (5764607523034235 / 2 ^ 59)) = PInf"
    by (rule round_double_overflow)
  have "round_trip (Fin (2 ^ 1023)) ''cp''
      = Inr (fmul (round_double (2 ^ 1023 / (5764607523034235 / 2 ^ 59)))
                  (Fin (5764607523034235 / 2 ^ 59)))"
    using u r by (rule round_trip_other)
  also have "\<dots> = Inr PInf" unfolding o by simp
  finally show ?thesis .
qed

end
